theory Spec2Isabelle
  imports Complex_Main "HOL-Library.AList"
begin

section \<open>Characters\<close>

text \<open>
  The source works on \<^verbatim>\<open>std::string\<close>, a sequence of bytes; a \<^typ>\<open>string\<close> is a list of
  \<^typ>\<open>char\<close>, and the cursor \<^verbatim>\<open>pos\<close> is an index into it.
\<close>

abbreviation DQ :: char where "DQ \<equiv> CHR 0x22"
abbreviation BSL :: char where "BSL \<equiv> CHR 0x5C"
abbreviation NL :: char where "NL \<equiv> CHR 0x0A"
abbreviation SQ :: char where "SQ \<equiv> CHR 0x27"
abbreviation NUL :: char where "NUL \<equiv> CHR 0x00"

text \<open>
  \<^verbatim>\<open>std::isspace\<close> and \<^verbatim>\<open>std::isdigit\<close> in the default "C" locale: space, \<^verbatim>\<open>\t \n \v \f \r\<close>,
  and the ten decimal digits.
\<close>

definition isspace :: "char \<Rightarrow> bool" where
  "isspace c \<longleftrightarrow> c \<in> set [CHR '' '', CHR 0x09, CHR 0x0A, CHR 0x0B, CHR 0x0C, CHR 0x0D]"

definition isdigit :: "char \<Rightarrow> bool" where
  "isdigit c \<longleftrightarrow> c \<in> set ''0123456789''"

section \<open>The value model\<close>

text \<open>
  \<^verbatim>\<open>double\<close>: an IEEE 754 binary64 value, given by its three fields: the sign bit, the
  biased exponent (below 2048) and the fraction (below \<open>2 ^ 52\<close>).
\<close>

datatype double = Double (dsign: bool) (dexp: nat) (dfrac: nat)

text \<open>
  \<^verbatim>\<open>JSONValue\<close> wraps a variant of six alternatives. \<^verbatim>\<open>JSONObject\<close> is an
  \<^verbatim>\<open>unordered_map\<close>: its keys are unique, and the order in which it is iterated is left open
  by the container. It is modelled by the list of its entries in iteration order, with
  pairwise different keys; a new key is entered at the end.
\<close>

datatype JSONValue =
    JNull
  | JBool bool
  | JNumber double
  | JString string
  | JArray "JSONValue list"
  | JObject "(string \<times> JSONValue) list"

type_synonym JSONArray = "JSONValue list"
type_synonym JSONObject = "(string \<times> JSONValue) list"

section \<open>Errors and results\<close>

text \<open>
  The parser throws \<^verbatim>\<open>std::runtime_error\<close> with a message; \<^verbatim>\<open>std::stod\<close> throws
  \<^verbatim>\<open>std::invalid_argument\<close> when no conversion can be performed and \<^verbatim>\<open>std::out_of_range\<close>
  when the value is out of the range of a double.
\<close>

datatype error = RuntimeError string | InvalidArgument | OutOfRange

text \<open>
  The mutually recursive productions carry a recursion budget; \<open>OutOfFuel\<close> is the result
  of a run that used it up, and is no behaviour of the source.
\<close>

datatype 'a result = Ok 'a | Err error | OutOfFuel

section \<open>The cursor\<close>

function skipWhitespace :: "string \<Rightarrow> nat \<Rightarrow> nat" where
  "skipWhitespace inp pos =
     (if pos < length inp \<and> isspace (inp ! pos) then skipWhitespace inp (Suc pos) else pos)"
  by pat_completeness auto
termination
  by (relation "measure (\<lambda>(inp, pos). length inp - pos)") auto

declare skipWhitespace.simps [simp del]

definition peek :: "string \<Rightarrow> nat \<Rightarrow> char" where
  "peek inp pos = (if pos < length inp then inp ! pos else NUL)"

definition get :: "string \<Rightarrow> nat \<Rightarrow> char \<times> nat" where
  "get inp pos = (if pos < length inp then (inp ! pos, Suc pos) else (NUL, pos))"

section \<open>Strings\<close>

function stringLoop :: "string \<Rightarrow> nat \<Rightarrow> string \<Rightarrow> error + string \<times> nat" where
  "stringLoop inp pos res =
     (if pos < length inp then
        (let (c, pos1) = get inp pos in
         if c = DQ then Inr (res, pos1)
         else if c = BSL then
           (let (next, pos2) = get inp pos1 in
            if next = DQ \<or> next = BSL \<or> next = CHR ''/'' then stringLoop inp pos2 (res @ [next])
            else if next = CHR ''n'' then stringLoop inp pos2 (res @ [NL])
            else Inl (RuntimeError ''Invalid escape sequence''))
         else stringLoop inp pos1 (res @ [c]))
      else Inr (res, pos))"
  by pat_completeness auto
termination
  by (relation "measure (\<lambda>(inp, pos, res). length inp - pos)")
     (auto simp: get_def split: if_splits)

declare stringLoop.simps [simp del]

definition parseString :: "string \<Rightarrow> nat \<Rightarrow> error + string \<times> nat" where
  "parseString inp pos =
     (let (c, pos1) = get inp pos in
      if c \<noteq> DQ then Inl (RuntimeError (''Expected '' @ [SQ, DQ, SQ]))
      else stringLoop inp pos1 [])"

section \<open>Numbers\<close>

subsection \<open>The platform's conversion from text\<close>

text \<open>
  \<^verbatim>\<open>std::stod\<close> is the C library's \<^verbatim>\<open>strtod\<close>: it reads the longest prefix that is a number,
  rounds its value to the nearest double (ties to even), throws \<^verbatim>\<open>std::invalid_argument\<close>
  when the text holds no digit, and \<^verbatim>\<open>std::out_of_range\<close> when \<^verbatim>\<open>strtod\<close> reports
  \<^verbatim>\<open>ERANGE\<close>. The model follows the GNU C library: \<^verbatim>\<open>ERANGE\<close> is reported when the value
  overflows, and when the value is not exact and is still below the normal range after it
  has been rounded to 53 bits (a value that this rounding lifts to the smallest normal
  double is returned as that double).
  The parser hands it texts made of a sign, digits and one point only, so the model reads
  an optional \<open>-\<close>, digits, and an optional point with digits.
\<close>

fun bitlen :: "nat \<Rightarrow> nat" where
  "bitlen n = (if n = 0 then 0 else Suc (bitlen (n div 2)))"

declare bitlen.simps [simp del]

fun declen :: "nat \<Rightarrow> nat" where
  "declen n = (if n = 0 then 0 else Suc (declen (n div 10)))"

declare declen.simps [simp del]

text \<open>\<open>ge_pow b num den e\<close>: the fraction \<open>num / den\<close> is at least \<open>b\<close> to the power \<open>e\<close>.\<close>

definition ge_pow :: "nat \<Rightarrow> nat \<Rightarrow> nat \<Rightarrow> int \<Rightarrow> bool" where
  "ge_pow b num den e \<longleftrightarrow>
     (if 0 \<le> e then den * b ^ nat e \<le> num else den \<le> num * b ^ nat (- e))"

text \<open>The integer part of the binary and of the decimal logarithm of \<open>num / den\<close>.\<close>

definition log2_floor :: "nat \<Rightarrow> nat \<Rightarrow> int" where
  "log2_floor num den =
     (let e0 = int (bitlen num) - int (bitlen den)
      in if ge_pow 2 num den e0 then e0 else e0 - 1)"

definition log10_floor :: "nat \<Rightarrow> nat \<Rightarrow> int" where
  "log10_floor num den =
     (let e0 = int (declen num) - int (declen den)
      in if ge_pow 10 num den e0 then e0 else e0 - 1)"

text \<open>\<open>a / b\<close> rounded to the nearest integer, a tie to the even one.\<close>

definition round_div :: "nat \<Rightarrow> nat \<Rightarrow> nat" where
  "round_div a b =
     (let q = a div b; r = a mod b
      in if 2 * r < b then q else if b < 2 * r then Suc q else if even q then q else Suc q)"

text \<open>
  The double nearest to \<open>num / den\<close> with sign \<open>s\<close>, or the range error. \<open>e\<close> is the binary
  exponent of the value. From \<open>-1022\<close> on the result is normal: the value is rounded to 53
  bits, a carry moves it to the next exponent, and an exponent above 1023 is the overflow.
  Below \<open>-1022\<close> the value is returned as the smallest normal double when the rounding to 53
  bits lifts it there, as a subnormal number when it is one exactly, and is a range error
  otherwise.
\<close>

definition round_binary64 :: "bool \<Rightarrow> nat \<Rightarrow> nat \<Rightarrow> error + double" where
  "round_binary64 s num den =
     (if num = 0 then Inr (Double s 0 0)
      else
        let e = log2_floor num den in
        if e < - 1022 then
          (if e = - 1023 \<and> round_div (num * 2 ^ 1075) den = 2 ^ 53 then Inr (Double s 1 0)
           else if (num * 2 ^ 1074) mod den = 0 then
             Inr (Double s 0 ((num * 2 ^ 1074) div den))
           else Inl OutOfRange)
        else
          let sh = e - 52;
              m = (if 0 \<le> sh then round_div num (den * 2 ^ nat sh)
                   else round_div (num * 2 ^ nat (- sh)) den);
              e' = (if m = 2 ^ 53 then e + 1 else e);
              m' = (if m = 2 ^ 53 then 2 ^ 52 else m)
          in if 1023 < e' then Inl OutOfRange
             else Inr (Double s (nat (e' + 1023)) (m' - 2 ^ 52)))"

definition digit_val :: "char \<Rightarrow> nat" where
  "digit_val c = of_char c - 48"

definition digits_val :: "string \<Rightarrow> nat" where
  "digits_val ds = foldl (\<lambda>a c. 10 * a + digit_val c) 0 ds"

definition stod :: "string \<Rightarrow> error + double" where
  "stod str =
     (let s = (case str of c # _ \<Rightarrow> c = CHR ''-'' | [] \<Rightarrow> False);
          body = (if s then tl str else str);
          ip = takeWhile isdigit body;
          r = dropWhile isdigit body;
          fp = (case r of c # r' \<Rightarrow> if c = CHR ''.'' then takeWhile isdigit r' else [] | [] \<Rightarrow> [])
      in if ip = [] \<and> fp = [] then Inl InvalidArgument
         else round_binary64 s (digits_val (ip @ fp)) (10 ^ length fp))"

text \<open>The value of a finite double, as a rational number.\<close>

definition double_val :: "double \<Rightarrow> rat" where
  "double_val d =
     (let m = (if dexp d = 0 then of_nat (dfrac d) / 2 ^ 1074
               else if 1075 \<le> dexp d then of_nat (2 ^ 52 + dfrac d) * 2 ^ (dexp d - 1075)
               else of_nat (2 ^ 52 + dfrac d) / 2 ^ (1075 - dexp d))
      in if dsign d then - m else m)"

subsection \<open>The number production\<close>

function skipDigits :: "string \<Rightarrow> nat \<Rightarrow> nat" where
  "skipDigits inp pos = (if isdigit (peek inp pos) then skipDigits inp (Suc pos) else pos)"
  by pat_completeness auto
termination
  by (relation "measure (\<lambda>(inp, pos). length inp - pos)")
     (auto simp: peek_def isdigit_def split: if_splits)

declare skipDigits.simps [simp del]

definition parseNumber :: "string \<Rightarrow> nat \<Rightarrow> error + double \<times> nat" where
  "parseNumber inp start =
     (let pos1 = (if peek inp start = CHR ''-'' then Suc start else start);
          pos2 = skipDigits inp pos1;
          pos3 = (if peek inp pos2 = CHR ''.'' then skipDigits inp (Suc pos2) else pos2)
      in case stod (take (pos3 - start) (drop start inp)) of
           Inl e \<Rightarrow> Inl e
         | Inr d \<Rightarrow> Inr (d, pos3))"

section \<open>Values, arrays and objects\<close>

text \<open>
  \<^verbatim>\<open>obj[key] = value\<close> on the \<^verbatim>\<open>unordered_map\<close>: an entry with this key is overwritten, and
  a new entry is made otherwise; this is \<^const>\<open>AList.update\<close>.

  The productions call each other; each call spends one unit of the budget \<open>f\<close>.
  \<^verbatim>\<open>input.compare(pos, n, s) == 0\<close> holds when the \<open>n\<close> characters from \<open>pos\<close> on are \<open>s\<close>.
\<close>

function parseValue :: "nat \<Rightarrow> string \<Rightarrow> nat \<Rightarrow> (JSONValue \<times> nat) result"
  and parseArray :: "nat \<Rightarrow> string \<Rightarrow> nat \<Rightarrow> (JSONArray \<times> nat) result"
  and arrayLoop :: "nat \<Rightarrow> string \<Rightarrow> JSONArray \<Rightarrow> nat \<Rightarrow> (JSONArray \<times> nat) result"
  and parseObject :: "nat \<Rightarrow> string \<Rightarrow> nat \<Rightarrow> (JSONObject \<times> nat) result"
  and objectLoop :: "nat \<Rightarrow> string \<Rightarrow> JSONObject \<Rightarrow> nat \<Rightarrow> (JSONObject \<times> nat) result"
where
  "parseValue 0 inp pos0 = OutOfFuel"
| "parseValue (Suc f) inp pos0 =
     (let pos = skipWhitespace inp pos0; c = peek inp pos in
      if c = DQ then
        (case parseString inp pos of Inl e \<Rightarrow> Err e | Inr (s, p) \<Rightarrow> Ok (JString s, p))
      else if c = CHR ''{'' then
        (case parseObject f inp pos of
           Ok (obj, p) \<Rightarrow> Ok (JObject obj, p) | Err e \<Rightarrow> Err e | OutOfFuel \<Rightarrow> OutOfFuel)
      else if c = CHR ''['' then
        (case parseArray f inp pos of
           Ok (arr, p) \<Rightarrow> Ok (JArray arr, p) | Err e \<Rightarrow> Err e | OutOfFuel \<Rightarrow> OutOfFuel)
      else if isdigit c \<or> c = CHR ''-'' then
        (case parseNumber inp pos of Inl e \<Rightarrow> Err e | Inr (d, p) \<Rightarrow> Ok (JNumber d, p))
      else if take 4 (drop pos inp) = ''true'' then Ok (JBool True, pos + 4)
      else if take 5 (drop pos inp) = ''false'' then Ok (JBool False, pos + 5)
      else if take 4 (drop pos inp) = ''null'' then Ok (JNull, pos + 4)
      else Err (RuntimeError ''Invalid JSON value''))"
| "parseArray 0 inp pos = OutOfFuel"
| "parseArray (Suc f) inp pos =
     (let (c, pos1) = get inp pos in
      if c \<noteq> CHR ''['' then Err (RuntimeError (''Expected '' @ [SQ, CHR ''['', SQ]))
      else
        let pos2 = skipWhitespace inp pos1 in
        if peek inp pos2 = CHR '']'' then Ok ([], snd (get inp pos2))
        else arrayLoop f inp [] pos2)"
| "arrayLoop 0 inp arr pos = OutOfFuel"
| "arrayLoop (Suc f) inp arr pos =
     (case parseValue f inp pos of
        OutOfFuel \<Rightarrow> OutOfFuel
      | Err e \<Rightarrow> Err e
      | Ok (v, pos1) \<Rightarrow>
          let arr' = arr @ [v]; pos2 = skipWhitespace inp pos1 in
          if peek inp pos2 = CHR '']'' then Ok (arr', snd (get inp pos2))
          else
            let (c, pos3) = get inp pos2 in
            if c \<noteq> CHR '','' then
              Err (RuntimeError (''Expected '' @ [SQ, CHR '','', SQ] @ '' in array''))
            else arrayLoop f inp arr' pos3)"
| "parseObject 0 inp pos = OutOfFuel"
| "parseObject (Suc f) inp pos =
     (let (c, pos1) = get inp pos in
      if c \<noteq> CHR ''{'' then Err (RuntimeError (''Expected '' @ [SQ, CHR ''{'', SQ]))
      else
        let pos2 = skipWhitespace inp pos1 in
        if peek inp pos2 = CHR ''}'' then Ok ([], snd (get inp pos2))
        else objectLoop f inp [] pos2)"
| "objectLoop 0 inp obj pos = OutOfFuel"
| "objectLoop (Suc f) inp obj pos =
     (let pos1 = skipWhitespace inp pos in
      case parseString inp pos1 of
        Inl e \<Rightarrow> Err e
      | Inr (key, pos2) \<Rightarrow>
          (let pos3 = skipWhitespace inp pos2; (c, pos4) = get inp pos3 in
           if c \<noteq> CHR '':'' then
             Err (RuntimeError (''Expected '' @ [SQ, CHR '':'', SQ] @ '' after key''))
           else
             (let pos5 = skipWhitespace inp pos4 in
              (case parseValue f inp pos5 of
                 OutOfFuel \<Rightarrow> OutOfFuel
               | Err e \<Rightarrow> Err e
               | Ok (v, pos6) \<Rightarrow>
                   (let obj' = AList.update key v obj; pos7 = skipWhitespace inp pos6 in
                    if peek inp pos7 = CHR ''}'' then Ok (obj', snd (get inp pos7))
                    else
                      (let (c', pos8) = get inp pos7 in
                       if c' \<noteq> CHR '','' then
                         Err (RuntimeError (''Expected '' @ [SQ, CHR '','', SQ] @ '' in object''))
                       else objectLoop f inp obj' pos8))))))"
  by pat_completeness auto
termination
  by (relation "measure (\<lambda>x. case x of
         Inl (Inl (f, _)) \<Rightarrow> f | Inl (Inr (f, _)) \<Rightarrow> f
       | Inr (Inl (f, _)) \<Rightarrow> f | Inr (Inr (Inl (f, _))) \<Rightarrow> f
       | Inr (Inr (Inr (f, _))) \<Rightarrow> f)") simp_all

text \<open>
  The budget \<^verbatim>\<open>parse\<close> starts with: three units for each character of the input, and one.
\<close>

definition fuel_of :: "string \<Rightarrow> nat" where
  "fuel_of inp = 3 * length inp + 1"

definition parse :: "string \<Rightarrow> JSONValue result" where
  "parse inp =
     (let pos = skipWhitespace inp 0 in
      case parseValue (fuel_of inp) inp pos of
        OutOfFuel \<Rightarrow> OutOfFuel
      | Err e \<Rightarrow> Err e
      | Ok (val, pos1) \<Rightarrow>
          let pos2 = skipWhitespace inp pos1 in
          if pos2 \<noteq> length inp then Err (RuntimeError ''Unexpected trailing characters'')
          else Ok val)"

section \<open>The pretty printer\<close>

subsection \<open>The platform's output of a double\<close>

text \<open>
  \<^verbatim>\<open>std::cout << arg\<close> for a double, with the stream's default flags and precision 6, is the
  C library's \<^verbatim>\<open>%g\<close>: six significant digits (rounded from the exact value, ties to even),
  fixed notation when the decimal exponent is at least \<open>-4\<close> and below 6 and scientific
  notation otherwise, zeros at the end of the fraction dropped.
\<close>

definition digit_char :: "nat \<Rightarrow> char" where
  "digit_char n = ''0123456789'' ! n"

fun dec_digits :: "nat \<Rightarrow> nat \<Rightarrow> string" where
  "dec_digits 0 n = []"
| "dec_digits (Suc k) n = dec_digits k (n div 10) @ [digit_char (n mod 10)]"

definition strip_zeros :: "string \<Rightarrow> string" where
  "strip_zeros ds = rev (dropWhile (\<lambda>c. c = CHR ''0'') (rev ds))"

definition with_fraction :: "string \<Rightarrow> string \<Rightarrow> string" where
  "with_fraction ip fp = (let fp' = strip_zeros fp in if fp' = [] then ip else ip @ ''.'' @ fp')"

text \<open>The magnitude of a finite double as a fraction of two naturals.\<close>

definition magnitude :: "double \<Rightarrow> nat \<times> nat" where
  "magnitude d =
     (if dexp d = 0 then (dfrac d, 2 ^ 1074)
      else if 1075 \<le> dexp d then ((2 ^ 52 + dfrac d) * 2 ^ (dexp d - 1075), 1)
      else (2 ^ 52 + dfrac d, 2 ^ (1075 - dexp d)))"

definition show_magnitude :: "nat \<Rightarrow> nat \<Rightarrow> string" where
  "show_magnitude num den =
     (let x0 = log10_floor num den;
          d0 = (if x0 \<le> 5 then round_div (num * 10 ^ nat (5 - x0)) den
                else round_div num (den * 10 ^ nat (x0 - 5)));
          x = (if d0 = 10 ^ 6 then x0 + 1 else x0);
          ds = dec_digits 6 (if d0 = 10 ^ 6 then 10 ^ 5 else d0)
      in if - 4 \<le> x \<and> x < 6 then
           (if 0 \<le> x then with_fraction (take (nat x + 1) ds) (drop (nat x + 1) ds)
            else with_fraction ''0'' (replicate (nat (- x - 1)) (CHR ''0'') @ ds))
         else
           with_fraction (take 1 ds) (drop 1 ds) @ ''e'' @ (if x < 0 then ''-'' else ''+'') @
           (let a = nat \<bar>x\<bar> in dec_digits (max 2 (declen a)) a))"

definition show_double :: "double \<Rightarrow> string" where
  "show_double d =
     (if dsign d then ''-'' else []) @
     (if dexp d = 2047 then (if dfrac d = 0 then ''inf'' else ''nan'')
      else if dexp d = 0 \<and> dfrac d = 0 then ''0''
      else case magnitude d of (num, den) \<Rightarrow> show_magnitude num den)"

subsection \<open>printJSON\<close>

text \<open>
  \<^verbatim>\<open>printJSON\<close> writes to \<^verbatim>\<open>std::cout\<close>; the model returns the characters written. The two
  loops write a comma after every element but the last one.
\<close>

fun printJSON :: "JSONValue \<Rightarrow> nat \<Rightarrow> string"
  and printArray :: "JSONArray \<Rightarrow> nat \<Rightarrow> string"
  and printObject :: "JSONObject \<Rightarrow> nat \<Rightarrow> string"
where
  "printJSON JNull indent = ''null''"
| "printJSON (JBool b) indent = (if b then ''true'' else ''false'')"
| "printJSON (JNumber d) indent = show_double d"
| "printJSON (JString s) indent = [DQ] @ s @ [DQ]"
| "printJSON (JArray arr) indent =
     ''['' @ [NL] @ printArray arr indent @ replicate indent (CHR '' '') @ '']''"
| "printJSON (JObject obj) indent =
     ''{'' @ [NL] @ printObject obj indent @ replicate indent (CHR '' '') @ ''}''"
| "printArray [] indent = []"
| "printArray (v # arr) indent =
     replicate (indent + 2) (CHR '' '') @ printJSON v (indent + 2) @
     (if arr \<noteq> [] then '','' else []) @ [NL] @ printArray arr indent"
| "printObject [] indent = []"
| "printObject ((key, v) # obj) indent =
     replicate (indent + 2) (CHR '' '') @ [DQ] @ key @ [DQ] @ '': '' @
     printJSON v (indent + 2) @
     (if obj \<noteq> [] then '','' else []) @ [NL] @ printObject obj indent"

section \<open>Notions used to state the properties\<close>

subsection \<open>The body of a string\<close>

text \<open>
  The grammar of a string body, in the words of the specification: a character other than
  the double quote and the backslash stands for itself, and a backslash is followed by one
  of four characters: \<open>escape_of\<close> is the table of the four escapes. \<open>valid_body s\<close> holds
  when \<open>s\<close> is made of such items only (it holds no closing quote, and no backslash without
  one of the four characters behind it); \<open>decode_body s\<close> is the text it stands for.
\<close>

definition escape_of :: "char \<Rightarrow> char option" where
  "escape_of c =
     (if c = DQ \<or> c = BSL \<or> c = CHR ''/'' then Some c
      else if c = CHR ''n'' then Some NL else None)"

fun valid_body :: "string \<Rightarrow> bool" where
  "valid_body [] = True"
| "valid_body [c] = (c \<noteq> DQ \<and> c \<noteq> BSL)"
| "valid_body (c # n # cs) =
     (if c = BSL then escape_of n \<noteq> None \<and> valid_body cs
      else c \<noteq> DQ \<and> valid_body (n # cs))"

fun decode_body :: "string \<Rightarrow> string" where
  "decode_body [] = []"
| "decode_body [c] = [c]"
| "decode_body (c # n # cs) =
     (if c = BSL then (case escape_of n of Some m \<Rightarrow> m | None \<Rightarrow> n) # decode_body cs
      else c # decode_body (n # cs))"

subsection \<open>The text of a number\<close>

text \<open>
  \<open>number_token s\<close> is the longest prefix of \<open>s\<close> made of an optional \<open>-\<close>, then digits,
  then an optional point with digits behind it; each run of digits may be empty.
\<close>

definition number_token :: "string \<Rightarrow> string" where
  "number_token s =
     (let sgn = (case s of c # _ \<Rightarrow> if c = CHR ''-'' then ''-'' else [] | [] \<Rightarrow> []);
          s1 = drop (length sgn) s;
          ip = takeWhile isdigit s1;
          s2 = dropWhile isdigit s1;
          fr = (case s2 of c # s3 \<Rightarrow> if c = CHR ''.'' then c # takeWhile isdigit s3 else []
                | [] \<Rightarrow> [])
      in sgn @ ip @ fr)"

subsection \<open>The members of an object in the order of the text\<close>

text \<open>
  \<open>objectMembers\<close> is the loop of \<^verbatim>\<open>parseObject\<close> with one change: each member it reads is
  appended to a list, where the source stores it in the map. It yields the members in the
  order of the source text, repeated keys included. \<open>store ms\<close> is the map after the members
  \<open>ms\<close> have been stored one after the other by \<^verbatim>\<open>obj[key] = value\<close>, from the empty map.
\<close>

fun objectMembers ::
  "nat \<Rightarrow> string \<Rightarrow> (string \<times> JSONValue) list \<Rightarrow> nat \<Rightarrow> ((string \<times> JSONValue) list \<times> nat) result"
where
  "objectMembers 0 inp ms pos = OutOfFuel"
| "objectMembers (Suc f) inp ms pos =
     (let pos1 = skipWhitespace inp pos in
      case parseString inp pos1 of
        Inl e \<Rightarrow> Err e
      | Inr (key, pos2) \<Rightarrow>
          (let pos3 = skipWhitespace inp pos2; (c, pos4) = get inp pos3 in
           if c \<noteq> CHR '':'' then
             Err (RuntimeError (''Expected '' @ [SQ, CHR '':'', SQ] @ '' after key''))
           else
             (let pos5 = skipWhitespace inp pos4 in
              (case parseValue f inp pos5 of
                 OutOfFuel \<Rightarrow> OutOfFuel
               | Err e \<Rightarrow> Err e
               | Ok (v, pos6) \<Rightarrow>
                   (let ms' = ms @ [(key, v)]; pos7 = skipWhitespace inp pos6 in
                    if peek inp pos7 = CHR ''}'' then Ok (ms', snd (get inp pos7))
                    else
                      (let (c', pos8) = get inp pos7 in
                       if c' \<noteq> CHR '','' then
                         Err (RuntimeError (''Expected '' @ [SQ, CHR '','', SQ] @ '' in object''))
                       else objectMembers f inp ms' pos8))))))"

definition store :: "(string \<times> JSONValue) list \<Rightarrow> JSONObject" where
  "store ms = foldl (\<lambda>obj (key, v). AList.update key v obj) [] ms"

subsection \<open>Values that can be read back\<close>

text \<open>
  A string is \<open>plain\<close> when it holds no double quote and no backslash. A double is
  \<open>number_reparsable\<close> when the text \<^verbatim>\<open>printJSON\<close> writes for it starts with a digit or a minus
  sign, is scanned whole by the number production, and is converted back to the same
  double. A value is \<open>reparsable\<close> when its strings and its keys are plain and its numbers
  are reparsable; the keys of an object are pairwise different, as they are in every
  \<^verbatim>\<open>unordered_map\<close>.
\<close>

definition plain :: "string \<Rightarrow> bool" where
  "plain s \<longleftrightarrow> DQ \<notin> set s \<and> BSL \<notin> set s"

definition number_reparsable :: "double \<Rightarrow> bool" where
  "number_reparsable d \<longleftrightarrow>
     (let s = show_double d
      in (case s of [] \<Rightarrow> False | c # _ \<Rightarrow> isdigit c \<or> c = CHR ''-'') \<and>
         number_token s = s \<and> stod s = Inr d)"

fun reparsable :: "JSONValue \<Rightarrow> bool"
  and reparsable_array :: "JSONArray \<Rightarrow> bool"
  and reparsable_object :: "JSONObject \<Rightarrow> bool"
where
  "reparsable JNull = True"
| "reparsable (JBool b) = True"
| "reparsable (JNumber d) = number_reparsable d"
| "reparsable (JString s) = plain s"
| "reparsable (JArray arr) = reparsable_array arr"
| "reparsable (JObject obj) = (distinct (map fst obj) \<and> reparsable_object obj)"
| "reparsable_array [] = True"
| "reparsable_array (v # arr) = (reparsable v \<and> reparsable_array arr)"
| "reparsable_object [] = True"
| "reparsable_object ((key, v) # obj) = (plain key \<and> reparsable v \<and> reparsable_object obj)"

definition follow_ok :: "string \<Rightarrow> bool" where
  "follow_ok rest \<longleftrightarrow> (case rest of [] \<Rightarrow> True | c # _ \<Rightarrow> c = CHR '','' \<or> c = NL)"

definition value_start :: "char \<Rightarrow> bool" where
  "value_start c \<longleftrightarrow>
     c = DQ \<or> c = CHR ''{'' \<or> c = CHR ''['' \<or> isdigit c \<or> c = CHR ''-'' \<or>
     c = CHR ''t'' \<or> c = CHR ''f'' \<or> c = CHR ''n''"

text \<open>
  \<open>same_value v w\<close>: the two trees are the same but for the order in which the entries of
  their objects are listed. Scalars are equal, arrays have the same values at the same
  places, and objects have as many entries, each entry of the first being an entry of the
  second with the same key and the same value.
\<close>

fun same_value :: "JSONValue \<Rightarrow> JSONValue \<Rightarrow> bool"
  and same_array :: "JSONArray \<Rightarrow> JSONArray \<Rightarrow> bool"
  and members_in :: "JSONObject \<Rightarrow> JSONObject \<Rightarrow> bool"
  and member_in :: "string \<Rightarrow> JSONValue \<Rightarrow> JSONObject \<Rightarrow> bool"
where
  "same_value (JArray a) w = (case w of JArray b \<Rightarrow> same_array a b | _ \<Rightarrow> False)"
| "same_value (JObject a) w =
     (case w of JObject b \<Rightarrow> length a = length b \<and> members_in a b | _ \<Rightarrow> False)"
| "same_value v w = (v = w)"
| "same_array [] b = (b = [])"
| "same_array (x # a) b = (case b of [] \<Rightarrow> False | y # b' \<Rightarrow> same_value x y \<and> same_array a b')"
| "members_in [] b = True"
| "members_in ((k, x) # a) b = (member_in k x b \<and> members_in a b)"
| "member_in k x [] = False"
| "member_in k x ((k', y) # b) = ((k = k' \<and> same_value x y) \<or> member_in k x b)"

subsection \<open>The failures of the parser\<close>

text \<open>
  \<open>messages\<close> lists the messages of the runtime errors that \<^verbatim>\<open>parse\<close> can throw. A \<open>failure\<close>
  is such a runtime error, or one of the two exceptions of \<^verbatim>\<open>std::stod\<close>.
\<close>

definition messages :: "string list" where
  "messages =
     [''Unexpected trailing characters'',
      ''Invalid JSON value'',
      ''Expected '' @ [SQ, DQ, SQ],
      ''Invalid escape sequence'',
      ''Expected '' @ [SQ, CHR '':'', SQ] @ '' after key'',
      ''Expected '' @ [SQ, CHR '','', SQ] @ '' in array'',
      ''Expected '' @ [SQ, CHR '','', SQ] @ '' in object'']"

definition failure :: "error \<Rightarrow> bool" where
  "failure e \<longleftrightarrow>
     e = InvalidArgument \<or> e = OutOfRange \<or> (\<exists>m. m \<in> set messages \<and> e = RuntimeError m)"

section \<open>Properties of the cursor\<close>

text \<open>The cursor operations, read on the part of the input that is still to be consumed.\<close>

lemma peek_drop: "peek inp pos = (case drop pos inp of [] \<Rightarrow> NUL | c # _ \<Rightarrow> c)"
  by (auto simp: peek_def split: list.splits simp: Cons_nth_drop_Suc[symmetric])

lemma get_drop:
  "get inp pos = (case drop pos inp of [] \<Rightarrow> (NUL, pos) | c # _ \<Rightarrow> (c, Suc pos))"
  by (auto simp: get_def split: list.splits simp: Cons_nth_drop_Suc[symmetric])

lemma skipWhitespace_eq:
  "skipWhitespace inp pos = pos + length (takeWhile isspace (drop pos inp))"
proof (induction inp pos rule: skipWhitespace.induct)
  case (1 inp pos)
  show ?case
  proof (cases "pos < length inp \<and> isspace (inp ! pos)")
    case True
    then have "drop pos inp = inp ! pos # drop (Suc pos) inp"
      by (simp add: Cons_nth_drop_Suc)
    with True 1 show ?thesis
      by (subst skipWhitespace.simps) simp
  next
    case False
    then show ?thesis
      by (subst skipWhitespace.simps) (auto simp: not_less takeWhile_eq_Nil_iff hd_drop_conv_nth)
  qed
qed

lemma skipDigits_eq:
  "skipDigits inp pos = pos + length (takeWhile isdigit (drop pos inp))"
proof (induction inp pos rule: skipDigits.induct)
  case (1 inp pos)
  show ?case
  proof (cases "isdigit (peek inp pos)")
    case True
    then have lt: "pos < length inp"
      by (auto simp: peek_def isdigit_def split: if_splits)
    then have "drop pos inp = inp ! pos # drop (Suc pos) inp"
      by (simp add: Cons_nth_drop_Suc)
    with True lt 1 show ?thesis
      by (subst skipDigits.simps) (simp add: peek_def)
  next
    case False
    then show ?thesis
      by (subst skipDigits.simps) (auto simp: peek_drop split: list.splits)
  qed
qed


lemma skipWhitespace_le: "pos \<le> skipWhitespace inp pos"
  by (simp add: skipWhitespace_eq)

lemma skipWhitespace_bound: "pos \<le> length inp \<Longrightarrow> skipWhitespace inp pos \<le> length inp"
proof -
  assume a: "pos \<le> length inp"
  have "length (takeWhile isspace (drop pos inp)) \<le> length (drop pos inp)"
    by (rule length_takeWhile_le)
  with a show ?thesis by (simp add: skipWhitespace_eq)
qed

lemma skipWhitespace_end [simp]: "skipWhitespace inp (length inp) = length inp"
  by (simp add: skipWhitespace_eq)

lemma skipWhitespace_idem [simp]:
  "skipWhitespace inp (skipWhitespace inp pos) = skipWhitespace inp pos"
proof -
  have "takeWhile isspace (dropWhile isspace xs) = []" for xs
    by (induction xs) auto
  then have "takeWhile isspace (drop (length (takeWhile isspace xs)) xs) = []" for xs
    by (simp add: dropWhile_eq_drop[symmetric])
  then show ?thesis
    by (simp add: skipWhitespace_eq add.commute[of pos] drop_drop[symmetric] del: drop_drop)
qed

lemma skipWhitespace_all:
  "\<forall>c\<in>set (drop pos inp). isspace c \<Longrightarrow> pos \<le> length inp \<Longrightarrow> skipWhitespace inp pos = length inp"
proof -
  assume a: "\<forall>c\<in>set (drop pos inp). isspace c" and b: "pos \<le> length inp"
  from a have tw: "takeWhile isspace (drop pos inp) = drop pos inp"
    by (simp add: takeWhile_eq_all_conv)
  show ?thesis unfolding skipWhitespace_eq tw using b by simp
qed

lemma skipWhitespace_stops:
  "\<exists>c\<in>set (drop pos inp). \<not> isspace c \<Longrightarrow> skipWhitespace inp pos < length inp"
proof -
  assume a: "\<exists>c\<in>set (drop pos inp). \<not> isspace c"
  then have "takeWhile isspace (drop pos inp) \<noteq> drop pos inp"
    by (simp add: takeWhile_eq_all_conv)
  then have "length (takeWhile isspace (drop pos inp)) < length (drop pos inp)"
    using length_takeWhile_le[of isspace "drop pos inp"]
    by (metis le_neq_implies_less takeWhile_eq_take take_all_iff order_refl)
  then show ?thesis by (simp add: skipWhitespace_eq)
qed

lemma fuel_of_Suc: "fuel_of inp = Suc (3 * length inp)"
  by (simp add: fuel_of_def)

lemma parseValue_at_end:
  "parseValue (Suc f) inp (length inp) = Err (RuntimeError ''Invalid JSON value'')"
  by (simp add: peek_def isdigit_def)

section \<open>The cursor stays inside the input, and the budget suffices\<close>

lemma get_bound: "pos \<le> length inp \<Longrightarrow> get inp pos = (c, p) \<Longrightarrow> pos \<le> p \<and> p \<le> length inp"
  by (auto simp: get_def split: if_splits)

lemma get_snd_bound: "pos \<le> length inp \<Longrightarrow> snd (get inp pos) \<le> length inp"
  by (auto simp: get_def)

lemma get_snd_le: "pos \<le> snd (get inp pos)"
  by (auto simp: get_def)

lemma skipDigits_le: "pos \<le> skipDigits inp pos"
  by (simp add: skipDigits_eq)

lemma skipDigits_bound: "pos \<le> length inp \<Longrightarrow> skipDigits inp pos \<le> length inp"
proof -
  assume a: "pos \<le> length inp"
  have "length (takeWhile isdigit (drop pos inp)) \<le> length (drop pos inp)"
    by (rule length_takeWhile_le)
  with a show ?thesis by (simp add: skipDigits_eq)
qed

lemma stringLoop_unfold:
  "stringLoop inp pos acc =
     (if pos < length inp then
        (if inp ! pos = DQ then Inr (acc, Suc pos)
         else if inp ! pos = BSL then
           (if Suc pos < length inp \<and>
               (inp ! Suc pos = DQ \<or> inp ! Suc pos = BSL \<or> inp ! Suc pos = CHR ''/'')
            then stringLoop inp (Suc (Suc pos)) (acc @ [inp ! Suc pos])
            else if Suc pos < length inp \<and> inp ! Suc pos = CHR ''n''
            then stringLoop inp (Suc (Suc pos)) (acc @ [NL])
            else Inl (RuntimeError ''Invalid escape sequence''))
         else stringLoop inp (Suc pos) (acc @ [inp ! pos]))
      else Inr (acc, pos))"
  by (subst stringLoop.simps) (auto simp: get_def)

lemma stringLoop_bound:
  "stringLoop inp pos acc = Inr (s, p) \<Longrightarrow> pos \<le> length inp \<Longrightarrow> pos \<le> p \<and> p \<le> length inp"
proof (induction "length inp - pos" arbitrary: pos acc rule: less_induct)
  case less
  show ?case
  proof (cases "pos < length inp")
    case False
    with less.prems show ?thesis
      by (subst (asm) stringLoop_unfold) simp
  next
    case lt: True
    have step1: "pos \<le> p \<and> p \<le> length inp"
      if "stringLoop inp (Suc pos) a = Inr (s, p)" for a
      using less.hyps[of "Suc pos" a] that lt by (auto simp: diff_less_mono2)
    have step2: "pos \<le> p \<and> p \<le> length inp"
      if "stringLoop inp (Suc (Suc pos)) a = Inr (s, p)" "Suc pos < length inp" for a
      using less.hyps[of "Suc (Suc pos)" a] that lt by (auto simp: diff_less_mono2)
    from less.prems(1) lt show ?thesis
      by (subst (asm) stringLoop_unfold) (auto split: if_splits dest: step1 step2)
  qed
qed

lemma parseString_bound:
  "parseString inp pos = Inr (s, p) \<Longrightarrow> pos \<le> length inp \<Longrightarrow> pos < p \<and> p \<le> length inp"
  by (auto simp: parseString_def get_def split: if_splits dest: stringLoop_bound)

lemma parseNumber_bound:
  "parseNumber inp pos = Inr (d, p) \<Longrightarrow> pos \<le> length inp \<Longrightarrow> pos \<le> p \<and> p \<le> length inp"
proof -
  assume a: "parseNumber inp pos = Inr (d, p)" and b: "pos \<le> length inp"
  define pos1 where "pos1 = (if peek inp pos = CHR ''-'' then Suc pos else pos)"
  define pos2 where "pos2 = skipDigits inp pos1"
  define pos3 where "pos3 = (if peek inp pos2 = CHR ''.'' then skipDigits inp (Suc pos2) else pos2)"
  have 1: "pos \<le> pos1 \<and> pos1 \<le> length inp"
    using b by (auto simp: pos1_def peek_def split: if_splits)
  then have 2: "pos1 \<le> pos2 \<and> pos2 \<le> length inp"
    by (simp add: pos2_def skipDigits_le skipDigits_bound)
  then have 3: "pos2 \<le> pos3 \<and> pos3 \<le> length inp"
    using skipDigits_le[of "Suc pos2" inp] skipDigits_bound[of "Suc pos2" inp]
    by (auto simp: pos3_def peek_def split: if_splits)
  from a have "p = pos3"
    by (auto simp: parseNumber_def Let_def pos1_def pos2_def pos3_def split: sum.splits)
  with 1 2 3 show ?thesis by simp
qed

lemma compare_bound:
  "take n (drop pos inp) = s \<Longrightarrow> length s = n \<Longrightarrow> 0 < n \<Longrightarrow> pos + n \<le> length inp"
  by (auto simp: min_def split: if_splits)


lemma peek_lt: "peek inp pos = c \<Longrightarrow> c \<noteq> NUL \<Longrightarrow> pos < length inp"
  by (auto simp: peek_def split: if_splits)

lemma parser_bounds:
  "(parseValue f inp pos = Ok (v, p) \<longrightarrow> pos \<le> length inp \<longrightarrow> pos \<le> p \<and> p \<le> length inp) \<and>
   (parseArray f inp pos = Ok (a, p) \<longrightarrow> pos \<le> length inp \<longrightarrow> pos \<le> p \<and> p \<le> length inp) \<and>
   (arrayLoop f inp arr pos = Ok (a, p) \<longrightarrow> pos \<le> length inp \<longrightarrow> pos \<le> p \<and> p \<le> length inp) \<and>
   (parseObject f inp pos = Ok (ob, p) \<longrightarrow> pos \<le> length inp \<longrightarrow> pos \<le> p \<and> p \<le> length inp) \<and>
   (objectLoop f inp obj pos = Ok (ob, p) \<longrightarrow> pos \<le> length inp \<longrightarrow> pos \<le> p \<and> p \<le> length inp)"
proof (induction f arbitrary: inp pos v p a arr ob obj)
  case 0
  show ?case by simp
next
  case (Suc f)
  note IHV = Suc.IH[THEN conjunct1, rule_format]
  note IHA = Suc.IH[THEN conjunct2, THEN conjunct1, rule_format]
  note IHAL = Suc.IH[THEN conjunct2, THEN conjunct2, THEN conjunct1, rule_format]
  note IHO = Suc.IH[THEN conjunct2, THEN conjunct2, THEN conjunct2, THEN conjunct1, rule_format]
  note IHOL = Suc.IH[THEN conjunct2, THEN conjunct2, THEN conjunct2, THEN conjunct2, rule_format]
  note sw = skipWhitespace_le skipWhitespace_bound
  have V: "pos \<le> p \<and> p \<le> length inp"
    if r: "parseValue (Suc f) inp pos = Ok (v, p)" and b: "pos \<le> length inp"
  proof -
    define q where "q = skipWhitespace inp pos"
    have q: "pos \<le> q \<and> q \<le> length inp"
      using b by (simp add: q_def sw)
    from r have "q \<le> p \<and> p \<le> length inp"
      unfolding parseValue.simps Let_def q_def[symmetric]
      using q
      by (auto split: if_splits sum.splits result.splits prod.splits
          dest: parseString_bound parseNumber_bound IHA IHO compare_bound)
    with q show ?thesis by simp
  qed
  have A: "pos \<le> p \<and> p \<le> length inp"
    if r: "parseArray (Suc f) inp pos = Ok (a, p)" and b: "pos \<le> length inp"
  proof -
    define q where "q = skipWhitespace inp (Suc pos)"
    from r have lt: "pos < length inp"
      by (auto simp: get_def split: if_splits)
    then have q: "Suc pos \<le> q \<and> q \<le> length inp"
      by (simp add: q_def sw)
    from r lt have "q \<le> p \<and> p \<le> length inp"
      unfolding parseArray.simps Let_def
      using q
      by (auto simp: get_def q_def[symmetric] split: if_splits dest: IHAL peek_lt)
    with q show ?thesis by simp
  qed
  have AL: "pos \<le> p \<and> p \<le> length inp"
    if r: "arrayLoop (Suc f) inp arr pos = Ok (a, p)" and b: "pos \<le> length inp"
  proof -
    from r obtain v1 p1 where pv: "parseValue f inp pos = Ok (v1, p1)"
      by (auto split: result.splits)
    from IHV[OF pv b] have p1: "pos \<le> p1 \<and> p1 \<le> length inp" .
    define q where "q = skipWhitespace inp p1"
    have q: "p1 \<le> q \<and> q \<le> length inp"
      using p1 by (simp add: q_def sw)
    from r pv have "q \<le> p \<and> p \<le> length inp"
      unfolding arrayLoop.simps Let_def
      using q
      by (auto simp: get_def q_def[symmetric] split: if_splits dest: IHAL peek_lt)
    with p1 q show ?thesis by simp
  qed
  have Ob: "pos \<le> p \<and> p \<le> length inp"
    if r: "parseObject (Suc f) inp pos = Ok (ob, p)" and b: "pos \<le> length inp"
  proof -
    define q where "q = skipWhitespace inp (Suc pos)"
    from r have lt: "pos < length inp"
      by (auto simp: get_def split: if_splits)
    then have q: "Suc pos \<le> q \<and> q \<le> length inp"
      by (simp add: q_def sw)
    from r lt have "q \<le> p \<and> p \<le> length inp"
      unfolding parseObject.simps Let_def
      using q
      by (auto simp: get_def q_def[symmetric] split: if_splits dest: IHOL peek_lt)
    with q show ?thesis by simp
  qed
  have OL: "pos \<le> p \<and> p \<le> length inp"
    if r: "objectLoop (Suc f) inp obj pos = Ok (ob, p)" and b: "pos \<le> length inp"
  proof -
    define q1 where "q1 = skipWhitespace inp pos"
    have q1: "pos \<le> q1 \<and> q1 \<le> length inp"
      using b by (simp add: q1_def sw)
    from r obtain key p2 where ps: "parseString inp q1 = Inr (key, p2)"
      by (auto simp: Let_def q1_def split: sum.splits)
    from parseString_bound[OF ps] q1 have p2: "q1 < p2 \<and> p2 \<le> length inp" by simp
    define q3 where "q3 = skipWhitespace inp p2"
    have q3: "p2 \<le> q3 \<and> q3 \<le> length inp"
      using p2 by (simp add: q3_def sw)
    from r ps have c: "q3 < length inp \<and> inp ! q3 = CHR '':''"
      by (auto simp: Let_def q1_def[symmetric] q3_def[symmetric] get_def split: if_splits)
    define q5 where "q5 = skipWhitespace inp (Suc q3)"
    have q5: "Suc q3 \<le> q5 \<and> q5 \<le> length inp"
      using c by (simp add: q5_def sw)
    from r ps c obtain v1 p6 where pv: "parseValue f inp q5 = Ok (v1, p6)"
      by (auto simp: Let_def q1_def[symmetric] q3_def[symmetric] q5_def[symmetric] get_def
          split: result.splits)
    from IHV[OF pv] q5 have p6: "q5 \<le> p6 \<and> p6 \<le> length inp" by simp
    define q7 where "q7 = skipWhitespace inp p6"
    have q7: "p6 \<le> q7 \<and> q7 \<le> length inp"
      using p6 by (simp add: q7_def sw)
    from r ps c pv have "q7 \<le> p \<and> p \<le> length inp"
      using q7
      by (auto simp: Let_def q1_def[symmetric] q3_def[symmetric] q5_def[symmetric]
          q7_def[symmetric] get_def split: if_splits dest: IHOL peek_lt)
    with q1 p2 q3 q5 p6 q7 show ?thesis by simp
  qed
  from V A AL Ob OL show ?case by blast
qed


lemma parseValue_bound:
  "parseValue f inp pos = Ok (v, p) \<Longrightarrow> pos \<le> length inp \<Longrightarrow> pos \<le> p \<and> p \<le> length inp"
  using parser_bounds[of f inp pos v p] by simp

lemma fuel_enough:
  "(pos \<le> length inp \<longrightarrow> 3 * (length inp - pos) + 1 \<le> f \<longrightarrow> parseValue f inp pos \<noteq> OutOfFuel) \<and>
   (pos < length inp \<longrightarrow> 3 * (length inp - pos) \<le> f \<longrightarrow> parseArray f inp pos \<noteq> OutOfFuel) \<and>
   (pos \<le> length inp \<longrightarrow> 3 * (length inp - pos) + 2 \<le> f \<longrightarrow> arrayLoop f inp arr pos \<noteq> OutOfFuel) \<and>
   (pos < length inp \<longrightarrow> 3 * (length inp - pos) \<le> f \<longrightarrow> parseObject f inp pos \<noteq> OutOfFuel) \<and>
   (pos \<le> length inp \<longrightarrow> 3 * (length inp - pos) + 2 \<le> f \<longrightarrow> objectLoop f inp obj pos \<noteq> OutOfFuel)"
proof (induction f arbitrary: inp pos arr obj)
  case 0
  show ?case by auto
next
  case (Suc f)
  note IHV = Suc.IH[THEN conjunct1, rule_format]
  note IHA = Suc.IH[THEN conjunct2, THEN conjunct1, rule_format]
  note IHAL = Suc.IH[THEN conjunct2, THEN conjunct2, THEN conjunct1, rule_format]
  note IHO = Suc.IH[THEN conjunct2, THEN conjunct2, THEN conjunct2, THEN conjunct1, rule_format]
  note IHOL = Suc.IH[THEN conjunct2, THEN conjunct2, THEN conjunct2, THEN conjunct2, rule_format]
  note sw = skipWhitespace_le skipWhitespace_bound
  have V: "parseValue (Suc f) inp pos \<noteq> OutOfFuel"
    if b: "pos \<le> length inp" and fu: "3 * (length inp - pos) + 1 \<le> Suc f"
  proof -
    define q where "q = skipWhitespace inp pos"
    have q: "pos \<le> q \<and> q \<le> length inp"
      using b by (simp add: q_def sw)
    have a: "parseArray f inp q \<noteq> OutOfFuel" if "peek inp q = CHR ''[''"
      using that q fu by (intro IHA) (auto dest: peek_lt)
    have o: "parseObject f inp q \<noteq> OutOfFuel" if "peek inp q = CHR ''{''"
      using that q fu by (intro IHO) (auto dest: peek_lt)
    show ?thesis
      unfolding parseValue.simps Let_def q_def[symmetric]
      using a o by (auto split: sum.splits result.splits)
  qed
  have A: "parseArray (Suc f) inp pos \<noteq> OutOfFuel"
    if b: "pos < length inp" and fu: "3 * (length inp - pos) \<le> Suc f"
  proof -
    define q where "q = skipWhitespace inp (Suc pos)"
    have q: "Suc pos \<le> q \<and> q \<le> length inp"
      using b by (simp add: q_def sw)
    have "arrayLoop f inp [] q \<noteq> OutOfFuel"
      using q fu b by (intro IHAL) auto
    then show ?thesis
      unfolding parseArray.simps Let_def
      using b by (auto simp: get_def q_def[symmetric])
  qed
  have AL: "arrayLoop (Suc f) inp arr pos \<noteq> OutOfFuel"
    if b: "pos \<le> length inp" and fu: "3 * (length inp - pos) + 2 \<le> Suc f"
  proof -
    have pv: "parseValue f inp pos \<noteq> OutOfFuel"
      using b fu by (intro IHV) auto
    have nxt: "arrayLoop f inp arr' (Suc q) \<noteq> OutOfFuel"
      if "parseValue f inp pos = Ok (v1, p1)" "q = skipWhitespace inp p1" "q < length inp"
      for v1 p1 q arr'
    proof -
      from parseValue_bound[OF that(1) b] have "pos \<le> p1 \<and> p1 \<le> length inp" .
      with that(2) have "pos \<le> q" using skipWhitespace_le[of p1 inp] by simp
      with that(3) fu show ?thesis by (intro IHAL) auto
    qed
    show ?thesis
      unfolding arrayLoop.simps Let_def
      using pv nxt by (auto simp: get_def split: result.splits)
  qed
  have Ob: "parseObject (Suc f) inp pos \<noteq> OutOfFuel"
    if b: "pos < length inp" and fu: "3 * (length inp - pos) \<le> Suc f"
  proof -
    define q where "q = skipWhitespace inp (Suc pos)"
    have q: "Suc pos \<le> q \<and> q \<le> length inp"
      using b by (simp add: q_def sw)
    have "objectLoop f inp [] q \<noteq> OutOfFuel"
      using q fu b by (intro IHOL) auto
    then show ?thesis
      unfolding parseObject.simps Let_def
      using b by (auto simp: get_def q_def[symmetric])
  qed
  have OL: "objectLoop (Suc f) inp obj pos \<noteq> OutOfFuel"
    if b: "pos \<le> length inp" and fu: "3 * (length inp - pos) + 2 \<le> Suc f"
  proof -
    define q1 where "q1 = skipWhitespace inp pos"
    have q1: "pos \<le> q1 \<and> q1 \<le> length inp"
      using b by (simp add: q1_def sw)
    have pv: False
      if "parseValue f inp q5 = OutOfFuel" "pos \<le> q5" "q5 \<le> length inp" for q5
    proof -
      have "parseValue f inp q5 \<noteq> OutOfFuel"
        using that(2,3) fu by (intro IHV) auto
      with that(1) show False by simp
    qed
    have nxt: False
      if "objectLoop f inp obj' (Suc (skipWhitespace inp p6)) = OutOfFuel"
        "parseValue f inp q5 = Ok (v1, p6)" "pos \<le> q5" "q5 \<le> length inp"
        "skipWhitespace inp p6 < length inp" for obj' q5 v1 p6
    proof -
      from parseValue_bound[OF that(2) that(4)] that(3)
      have "pos \<le> skipWhitespace inp p6"
        using skipWhitespace_le[of p6 inp] by simp
      with that(5) fu have "objectLoop f inp obj' (Suc (skipWhitespace inp p6)) \<noteq> OutOfFuel"
        by (intro IHOL) auto
      with that(1) show False by simp
    qed
    have chain: "pos \<le> skipWhitespace inp (Suc (skipWhitespace inp p2)) \<and>
                 skipWhitespace inp (Suc (skipWhitespace inp p2)) \<le> length inp"
      if "parseString inp q1 = Inr (key, p2)" "skipWhitespace inp p2 < length inp" for key p2
    proof -
      from parseString_bound[OF that(1)] q1 have "q1 < p2 \<and> p2 \<le> length inp" by simp
      with q1 that(2) show ?thesis
        using skipWhitespace_le[of p2 inp]
          skipWhitespace_le[of "Suc (skipWhitespace inp p2)" inp]
          skipWhitespace_bound[of "Suc (skipWhitespace inp p2)" inp]
        by simp
    qed
    show ?thesis
      unfolding objectLoop.simps Let_def q1_def[symmetric]
      by (auto simp: get_def split: sum.splits result.splits dest!: chain dest: pv nxt)
  qed
  from V A AL Ob OL show ?case by blast
qed

lemma parse_returns: "parse inp \<noteq> OutOfFuel"
proof -
  have "parseValue (fuel_of inp) inp (skipWhitespace inp 0) \<noteq> OutOfFuel"
    using fuel_enough[of "skipWhitespace inp 0" inp "fuel_of inp"]
      skipWhitespace_bound[of 0 inp]
    by (simp add: fuel_of_def)
  then show ?thesis
    by (auto simp: parse_def Let_def split: result.splits)
qed

section \<open>String bodies\<close>

lemma drop_eq_ConsD:
  "drop pos inp = c # r \<Longrightarrow> pos < length inp \<and> inp ! pos = c \<and> drop (Suc pos) inp = r"
proof -
  assume a: "drop pos inp = c # r"
  then have lt: "pos < length inp"
    by (metis drop_all list.distinct(1) not_less)
  with a show ?thesis
    by (simp add: Cons_nth_drop_Suc[symmetric])
qed

lemma stringLoop_body:
  "drop pos inp = s @ rest \<Longrightarrow> valid_body s \<Longrightarrow>
   stringLoop inp pos acc = stringLoop inp (pos + length s) (acc @ decode_body s)"
proof (induction s arbitrary: pos acc rule: valid_body.induct)
  case 1
  show ?case by simp
next
  case (2 c)
  from "2.prems" drop_eq_ConsD[of pos inp c rest]
  have "pos < length inp" "inp ! pos = c" "c \<noteq> DQ" "c \<noteq> BSL" by auto
  then show ?case
    by (subst stringLoop_unfold) simp
next
  case (3 c n cs)
  from "3.prems" drop_eq_ConsD[of pos inp c "n # cs @ rest"]
  have c: "pos < length inp" "inp ! pos = c" and d1: "drop (Suc pos) inp = (n # cs) @ rest"
    by auto
  from d1 drop_eq_ConsD[of "Suc pos" inp n "cs @ rest"]
  have n: "Suc pos < length inp" "inp ! Suc pos = n" and d2: "drop (Suc (Suc pos)) inp = cs @ rest"
    by auto
  show ?case
  proof (cases "c = BSL")
    case True
    with "3.prems" have e: "escape_of n \<noteq> None" and v: "valid_body cs" by auto
    from "3.IH"(1)[OF True d2 v]
    have "stringLoop inp (Suc (Suc pos)) a = stringLoop inp (Suc (Suc pos) + length cs) (a @ decode_body cs)" for a .
    with True c n e show ?thesis
      by (subst stringLoop_unfold) (auto simp: escape_of_def split: if_splits)
  next
    case False
    with "3.prems" have q: "c \<noteq> DQ" and v: "valid_body (n # cs)" by auto
    from "3.IH"(2)[OF False d1 v]
    have "stringLoop inp (Suc pos) a = stringLoop inp (Suc pos + length (n # cs)) (a @ decode_body (n # cs))" for a .
    with False q c show ?thesis
      by (subst stringLoop_unfold) simp
  qed
qed

lemma stringLoop_bad_escape:
  assumes "drop pos inp = BSL # rest" and "rest = [] \<or> escape_of (hd rest) = None"
  shows "stringLoop inp pos acc = Inl (RuntimeError ''Invalid escape sequence'')"
proof -
  from assms(1) drop_eq_ConsD[of pos inp BSL rest]
  have c: "pos < length inp" "inp ! pos = BSL" and d: "drop (Suc pos) inp = rest" by auto
  show ?thesis
  proof (cases rest)
    case Nil
    with d have "\<not> Suc pos < length inp" by simp
    with c show ?thesis by (subst stringLoop_unfold) simp
  next
    case (Cons n r)
    with d drop_eq_ConsD[of "Suc pos" inp n r] have "Suc pos < length inp" "inp ! Suc pos = n"
      by auto
    moreover from Cons assms(2) have "escape_of n = None" by simp
    ultimately show ?thesis using c
      by (subst stringLoop_unfold) (auto simp: escape_of_def split: if_splits)
  qed
qed

lemma stringLoop_good_escape:
  assumes "drop pos inp = BSL # c # rest" and "escape_of c = Some m"
  shows "stringLoop inp pos acc = stringLoop inp (pos + 2) (acc @ [m])"
proof -
  from assms(1) drop_eq_ConsD[of pos inp BSL "c # rest"]
  have c: "pos < length inp" "inp ! pos = BSL" and d: "drop (Suc pos) inp = c # rest" by auto
  from d drop_eq_ConsD[of "Suc pos" inp c rest] have "Suc pos < length inp" "inp ! Suc pos = c"
    by auto
  with c assms(2) show ?thesis
    by (subst stringLoop_unfold) (auto simp: escape_of_def split: if_splits)
qed

lemma stringLoop_close:
  assumes "drop pos inp = DQ # rest"
  shows "stringLoop inp pos acc = Inr (acc, Suc pos)"
proof -
  from assms drop_eq_ConsD[of pos inp DQ rest]
  have "pos < length inp" "inp ! pos = DQ" by auto
  then show ?thesis by (subst stringLoop_unfold) simp
qed

lemma stringLoop_eoi: "stringLoop inp (length inp) acc = Inr (acc, length inp)"
  by (subst stringLoop_unfold) simp

lemma skipWhitespace_prefix:
  assumes "\<forall>x\<in>set ws. isspace x" and "rest = [] \<or> \<not> isspace (hd rest)"
  shows "skipWhitespace (pre @ ws @ rest) (length pre) = length pre + length ws"
proof -
  from assms have "takeWhile isspace (ws @ rest) = ws"
    by (cases rest) (auto simp: takeWhile_append2)
  then show ?thesis by (simp add: skipWhitespace_eq)
qed

lemma parse_string_document:
  assumes ws: "\<forall>x\<in>set ws. isspace x"
  shows "parse (ws @ DQ # body) =
     (case stringLoop (ws @ DQ # body) (Suc (length ws)) [] of
        Inl e \<Rightarrow> Err e
      | Inr (s, p) \<Rightarrow>
          if skipWhitespace (ws @ DQ # body) p \<noteq> length (ws @ DQ # body)
          then Err (RuntimeError ''Unexpected trailing characters'') else Ok (JString s))"
proof -
  let ?inp = "ws @ DQ # body"
  have sk: "skipWhitespace ?inp 0 = length ws"
    using skipWhitespace_prefix[OF ws, of "DQ # body" "[]"] by (simp add: isspace_def)
  have sk2: "skipWhitespace ?inp (length ws) = length ws"
    using skipWhitespace_idem[of ?inp 0] unfolding sk .
  have pk: "peek ?inp (length ws) = DQ"
    by (simp add: peek_def)
  have ps: "parseString ?inp (length ws) = stringLoop ?inp (Suc (length ws)) []"
    by (simp add: parseString_def get_def)
  show ?thesis
    unfolding parse_def sk fuel_of_Suc parseValue.simps Let_def sk2 pk ps
    by (simp split: sum.splits)
qed

section \<open>The number production, and evaluation on given inputs\<close>

lemma drop_add_length: "drop pos inp = a @ b \<Longrightarrow> drop (pos + length a) inp = b"
  by (simp add: add.commute[of pos] drop_drop[symmetric] del: drop_drop)

lemma parseNumber_token:
  "parseNumber inp pos =
     (case stod (number_token (drop pos inp)) of
        Inl e \<Rightarrow> Inl e
      | Inr d \<Rightarrow> Inr (d, pos + length (number_token (drop pos inp))))"
proof -
  define s where "s = drop pos inp"
  define sgn where "sgn = (case s of c # _ \<Rightarrow> if c = CHR ''-'' then ''-'' else [] | [] \<Rightarrow> [])"
  define s1 where "s1 = drop (length sgn) s"
  define ip where "ip = takeWhile isdigit s1"
  define s2 where "s2 = dropWhile isdigit s1"
  define fr where "fr = (case s2 of c # s3 \<Rightarrow> if c = CHR ''.'' then c # takeWhile isdigit s3 else []
                | [] \<Rightarrow> [])"
  define pos1 where "pos1 = (if peek inp pos = CHR ''-'' then Suc pos else pos)"
  define pos2 where "pos2 = skipDigits inp pos1"
  define pos3 where "pos3 = (if peek inp pos2 = CHR ''.'' then skipDigits inp (Suc pos2) else pos2)"
  have tok: "number_token s = sgn @ ip @ fr"
    by (simp add: number_token_def Let_def sgn_def s1_def ip_def s2_def fr_def)
  have s: "s = sgn @ s1"
    by (auto simp: sgn_def s1_def split: list.splits)
  have p1: "pos1 = pos + length sgn"
    by (auto simp: pos1_def sgn_def peek_drop s_def split: list.splits)
  have d1: "drop pos1 inp = s1"
    unfolding p1 using s by (intro drop_add_length) (simp add: s_def)
  have s1: "s1 = ip @ s2"
    by (simp add: ip_def s2_def)
  have p2: "pos2 = pos1 + length ip"
    by (simp add: pos2_def skipDigits_eq d1 ip_def)
  have d2: "drop pos2 inp = s2"
    unfolding p2 using d1 s1 by (intro drop_add_length) simp
  have p3: "pos3 = pos2 + length fr"
  proof (cases s2)
    case Nil
    with d2 show ?thesis by (simp add: pos3_def fr_def peek_drop)
  next
    case (Cons c s3)
    with d2 drop_eq_ConsD[of pos2 inp c s3] have "drop (Suc pos2) inp = s3" by simp
    with Cons d2 show ?thesis
      by (simp add: pos3_def fr_def peek_drop skipDigits_eq)
  qed
  have "\<exists>s4. s2 = fr @ s4"
    by (cases s2) (auto simp: fr_def intro: takeWhile_dropWhile_id[symmetric])
  then obtain s4 where s2: "s2 = fr @ s4" ..
  have "take (pos3 - pos) s = sgn @ ip @ fr"
    by (subst s, subst s1, subst s2) (simp add: p3 p2 p1)
  then show ?thesis
    unfolding parseNumber_def Let_def pos1_def[symmetric] pos2_def[symmetric] pos3_def[symmetric]
      s_def[symmetric] tok
    by (simp add: p3 p2 p1 split: sum.splits)
qed

lemma parse_number_document:
  assumes "inp \<noteq> []" and "isdigit (hd inp) \<or> hd inp = CHR ''-''"
  shows "parse inp =
     (case stod (number_token inp) of
        Inl e \<Rightarrow> Err e
      | Inr d \<Rightarrow>
          if skipWhitespace inp (length (number_token inp)) \<noteq> length inp
          then Err (RuntimeError ''Unexpected trailing characters'') else Ok (JNumber d))"
proof -
  from assms obtain c r where inp: "inp = c # r" and c: "isdigit c \<or> c = CHR ''-''"
    by (cases inp) auto
  from c have ns: "\<not> isspace c" and ne: "c \<noteq> DQ" "c \<noteq> CHR ''{''" "c \<noteq> CHR ''[''"
    by (auto simp: isdigit_def isspace_def)
  from ns have sk: "skipWhitespace inp 0 = 0"
    by (simp add: skipWhitespace_eq inp)
  have pk: "peek inp 0 = c"
    by (simp add: peek_def inp)
  show ?thesis
    unfolding parse_def sk fuel_of_Suc parseValue.simps Let_def pk parseNumber_token
    using ne c by (simp split: sum.splits)
qed

text \<open>Rules that evaluate the conversions and the parser on literal inputs.\<close>

lemma bitlen_numeral [simp]:
  "bitlen (numeral k) = Suc (bitlen (numeral k div 2))"
  by (subst bitlen.simps) simp

lemma bitlen_0 [simp]: "bitlen 0 = 0"
  by (subst bitlen.simps) simp

lemma bitlen_1 [simp]: "bitlen (Suc 0) = Suc 0"
  by (subst bitlen.simps) simp

lemmas stod_eval =
  stod_def isdigit_def digits_val_def digit_val_def round_binary64_def
  log2_floor_def ge_pow_def round_div_def Let_def

lemma stod_examples:
  "stod ''-'' = Inl InvalidArgument"
  "stod ''1'' = Inr (Double False 1023 0)"
  "stod ''2'' = Inr (Double False 1024 0)"
  "stod ''-12.5'' = Inr (Double True 1026 2533274790395904)"
  "stod ''-.5'' = Inr (Double True 1022 0)"
  "stod ''1.'' = Inr (Double False 1023 0)"
  "stod ''1000000'' = Inr (Double False 1042 4086334964629504)"
  by (simp_all add: stod_eval)

lemmas fuel_numeral =
  parseValue.simps(2)[of "pred_numeral k", folded numeral_eq_Suc]
  parseArray.simps(2)[of "pred_numeral k", folded numeral_eq_Suc]
  arrayLoop.simps(2)[of "pred_numeral k", folded numeral_eq_Suc]
  parseObject.simps(2)[of "pred_numeral k", folded numeral_eq_Suc]
  objectLoop.simps(2)[of "pred_numeral k", folded numeral_eq_Suc]
  for k

lemmas parse_eval =
  parse_def fuel_of_def fuel_numeral skipWhitespace_eq peek_def get_def parseString_def
  stringLoop_unfold parseNumber_token number_token_def stod_examples isspace_def isdigit_def
  Let_def

lemma dec_digits_numeral [simp]:
  "dec_digits (numeral k) n = dec_digits (pred_numeral k) (n div 10) @ [digit_char (n mod 10)]"
  by (subst numeral_eq_Suc) (rule dec_digits.simps)

lemma declen_numeral [simp]:
  "declen (numeral k) = Suc (declen (numeral k div 10))"
  by (subst declen.simps) simp

lemma declen_0 [simp]: "declen 0 = 0"
  by (subst declen.simps) simp

lemma declen_1 [simp]: "declen (Suc 0) = Suc 0"
  by (subst declen.simps) simp

lemmas show_eval =
  show_double_def magnitude_def show_magnitude_def log10_floor_def ge_pow_def round_div_def
  with_fraction_def strip_zeros_def digit_char_def Let_def

lemma show_double_examples:
  "show_double (Double False 1023 0) = ''1''"
  "show_double (Double False 1024 0) = ''2''"
  "show_double (Double True 1026 2533274790395904) = ''-12.5''"
  "show_double (Double False 1042 4086334964629504) = ''1e+06''"
  by (simp_all add: show_eval)

section \<open>Escape sequences\<close>

lemma valid_body_append: "valid_body s \<Longrightarrow> valid_body (s @ t) = valid_body t"
proof (induction s rule: valid_body.induct)
  case 1
  show ?case by simp
next
  case (2 c)
  then show ?case by (cases t) auto
next
  case (3 c n cs)
  then show ?case by (auto split: if_splits)
qed

lemma decode_body_append: "valid_body s \<Longrightarrow> decode_body (s @ t) = decode_body s @ decode_body t"
proof (induction s rule: valid_body.induct)
  case 1
  show ?case by simp
next
  case (2 c)
  then show ?case by (cases t) auto
next
  case (3 c n cs)
  then show ?case by (auto split: if_splits)
qed

lemma stringLoop_closed:
  assumes d: "drop pos inp = s @ DQ # rest" and v: "valid_body s"
  shows "stringLoop inp pos acc = Inr (acc @ decode_body s, pos + length s + 1)"
proof -
  from drop_add_length[OF d] have "drop (pos + length s) inp = DQ # rest" .
  from stringLoop_close[OF this] stringLoop_body[OF d v] show ?thesis by simp
qed

text \<open>
  Claim C5. In a string, a backslash takes exactly one character after it and maps it
  through a table of four entries: double quote, backslash and slash to themselves, \<open>n\<close> to
  the newline; the loop goes on two characters further with the mapped character appended.
  So a body of plain characters and such escapes, closed by a double quote, is read as the
  text it stands for, with the cursor behind the closing quote: a plain body stands for
  itself, and an escape within a body stands for its mapped character. For every other
  character after the backslash, and for a backslash that ends the input, the loop throws
  "Invalid escape sequence", and so does \<^verbatim>\<open>parse\<close> on a document that starts with such a
  string; the document of the four characters quote, backslash, \<open>t\<close>, quote is one of them.
\<close>

theorem string_escapes:
  "((escape_of c = Some m) =
      ((c, m) \<in> set [(DQ, DQ), (BSL, BSL), (CHR ''/'', CHR ''/''), (CHR ''n'', NL)])) \<and>
   (drop pos inp = s @ BSL # c # rest \<and> valid_body s \<and> escape_of c = Some m \<longrightarrow>
      stringLoop inp pos acc =
      stringLoop inp (pos + length s + 2) (acc @ decode_body s @ [m])) \<and>
   (drop pos inp = s @ BSL # c # rest \<and> valid_body s \<and> escape_of c = None \<longrightarrow>
      stringLoop inp pos acc = Inl (RuntimeError ''Invalid escape sequence'')) \<and>
   (drop pos inp = s @ [BSL] \<and> valid_body s \<longrightarrow>
      stringLoop inp pos acc = Inl (RuntimeError ''Invalid escape sequence'')) \<and>
   ((\<forall>x\<in>set ws. isspace x) \<and> valid_body s \<and> escape_of c = None \<longrightarrow>
      parse (ws @ DQ # s @ BSL # c # rest) = Err (RuntimeError ''Invalid escape sequence'')) \<and>
   parse [DQ, BSL, CHR ''t'', DQ] = Err (RuntimeError ''Invalid escape sequence'') \<and>
   (drop pos inp = s @ DQ # rest \<and> valid_body s \<longrightarrow>
      stringLoop inp pos acc = Inr (acc @ decode_body s, pos + length s + 1)) \<and>
   (valid_body s \<longrightarrow>
      parseString (pre @ DQ # s @ DQ # rest) (length pre) =
        Inr (decode_body s, length pre + length s + 2)) \<and>
   ((\<forall>x\<in>set ws. isspace x) \<and> valid_body s \<longrightarrow>
      parse (ws @ DQ # s @ [DQ]) = Ok (JString (decode_body s))) \<and>
   (valid_body s \<and> escape_of c = Some m \<and> valid_body t \<longrightarrow>
      valid_body (s @ BSL # c # t) \<and>
      decode_body (s @ BSL # c # t) = decode_body s @ m # decode_body t) \<and>
   (DQ \<notin> set s \<and> BSL \<notin> set s \<longrightarrow> valid_body s \<and> decode_body s = s) \<and>
   parse ([DQ] @ ''a'' @ [BSL, CHR ''n''] @ ''b'' @ [BSL, DQ] @ ''c'' @ [BSL, BSL] @ ''d'' @
          [BSL, CHR ''/''] @ ''e'' @ [DQ]) =
     Ok (JString (''a'' @ [NL] @ ''b'' @ [DQ] @ ''c'' @ [BSL] @ ''d/e''))"
proof -
  have table: "(escape_of c = Some m) =
      ((c, m) \<in> set [(DQ, DQ), (BSL, BSL), (CHR ''/'', CHR ''/''), (CHR ''n'', NL)])"
    by (auto simp: escape_of_def)
  have good: "stringLoop inp pos acc =
      stringLoop inp (pos + length s + 2) (acc @ decode_body s @ [m])"
    if d: "drop pos inp = s @ BSL # c # rest" and v: "valid_body s" and e: "escape_of c = Some m"
  proof -
    from d have "drop (pos + length s) inp = BSL # c # rest"
      by (rule drop_add_length)
    from stringLoop_good_escape[OF this e] stringLoop_body[OF d v]
    show ?thesis by simp
  qed
  have bad: "stringLoop inp pos acc = Inl (RuntimeError ''Invalid escape sequence'')"
    if d: "drop pos inp = s @ BSL # r" and v: "valid_body s"
      and e: "r = [] \<or> escape_of (hd r) = None" for inp pos acc s r
  proof -
    from d have "drop (pos + length s) inp = BSL # r"
      by (rule drop_add_length)
    from stringLoop_bad_escape[OF this e] stringLoop_body[OF d v]
    show ?thesis by simp
  qed
  have doc: "parse (ws @ DQ # s @ BSL # c # rest) = Err (RuntimeError ''Invalid escape sequence'')"
    if ws: "\<forall>x\<in>set ws. isspace x" and v: "valid_body s" and e: "escape_of c = None"
    for ws s c rest
  proof -
    have "drop (Suc (length ws)) (ws @ DQ # s @ BSL # c # rest) = s @ BSL # c # rest"
      by simp
    from bad[OF this v] e
    have "stringLoop (ws @ DQ # s @ BSL # c # rest) (Suc (length ws)) [] =
            Inl (RuntimeError ''Invalid escape sequence'')"
      by simp
    then show ?thesis
      by (simp add: parse_string_document[OF ws])
  qed
  have "parse ([] @ DQ # [] @ BSL # CHR ''t'' # [DQ]) = Err (RuntimeError ''Invalid escape sequence'')"
    by (rule doc) (simp_all add: escape_of_def)
  then have ex: "parse [DQ, BSL, CHR ''t'', DQ] = Err (RuntimeError ''Invalid escape sequence'')"
    by simp
  have closed: "stringLoop inp pos acc = Inr (acc @ decode_body s, pos + length s + 1)"
    if "drop pos inp = s @ DQ # rest" "valid_body s" for inp pos acc s rest
    using that by (rule stringLoop_closed)
  have ps: "parseString (pre @ DQ # s @ DQ # rest) (length pre) =
        Inr (decode_body s, length pre + length s + 2)" if v: "valid_body s"
  proof -
    have "drop (Suc (length pre)) (pre @ DQ # s @ DQ # rest) = s @ DQ # rest" by simp
    from closed[OF this v, of "[]"] show ?thesis
      by (simp add: parseString_def get_def)
  qed
  have okdoc: "parse (ws @ DQ # s @ [DQ]) = Ok (JString (decode_body s))"
    if ws: "\<forall>x\<in>set ws. isspace x" and v: "valid_body s"
  proof -
    have "drop (Suc (length ws)) (ws @ DQ # s @ [DQ]) = s @ DQ # []" by simp
    from closed[OF this v, of "[]"] skipWhitespace_end[of "ws @ DQ # s @ [DQ]"]
    show ?thesis
      by (simp add: parse_string_document[OF ws])
  qed
  have dec: "valid_body (s @ BSL # c # t) \<and>
      decode_body (s @ BSL # c # t) = decode_body s @ m # decode_body t"
    if "valid_body s" "escape_of c = Some m" "valid_body t"
    using that by (simp add: valid_body_append decode_body_append)
  have pl: "valid_body s \<and> decode_body s = s" if "DQ \<notin> set s" "BSL \<notin> set s"
    using that by (induction s rule: valid_body.induct) auto
  have big: "parse ([DQ] @ ''a'' @ [BSL, CHR ''n''] @ ''b'' @ [BSL, DQ] @ ''c'' @ [BSL, BSL] @ ''d'' @
          [BSL, CHR ''/''] @ ''e'' @ [DQ]) =
     Ok (JString (''a'' @ [NL] @ ''b'' @ [DQ] @ ''c'' @ [BSL] @ ''d/e''))"
    by (simp add: parse_eval)
  from table good bad[of pos inp s "c # rest" acc] bad[of pos inp s "[]" acc] doc ex
    closed[of pos inp s rest acc] ps okdoc dec pl big
  show ?thesis by simp
qed


theorem string_escapes_witness:
  "escape_of (CHR ''n'') = Some NL \<and> valid_body ''a'' \<and> valid_body ''b'' \<and>
   drop 1 [DQ, CHR ''a'', BSL, CHR ''n'', CHR ''b'', DQ] = ''a'' @ BSL # CHR ''n'' # [CHR ''b'', DQ] \<and>
   stringLoop [DQ, CHR ''a'', BSL, CHR ''n'', CHR ''b'', DQ] 1 [] =
     stringLoop [DQ, CHR ''a'', BSL, CHR ''n'', CHR ''b'', DQ] 4 [CHR ''a'', NL] \<and>
   valid_body [CHR ''a'', BSL, CHR ''n'', CHR ''b''] \<and>
   decode_body [CHR ''a'', BSL, CHR ''n'', CHR ''b''] = [CHR ''a'', NL, CHR ''b''] \<and>
   drop 1 [DQ, CHR ''a'', BSL, CHR ''n'', CHR ''b'', DQ] = [CHR ''a'', BSL, CHR ''n'', CHR ''b''] @ DQ # [] \<and>
   stringLoop [DQ, CHR ''a'', BSL, CHR ''n'', CHR ''b'', DQ] 1 [] = Inr ([CHR ''a'', NL, CHR ''b''], 6) \<and>
   parseString (''['' @ DQ # [CHR ''a'', BSL, CHR ''n'', CHR ''b''] @ DQ # '']'') (length ''['') =
     Inr ([CHR ''a'', NL, CHR ''b''], 7) \<and>
   list_all isspace '' '' \<and>
   parse ('' '' @ DQ # [CHR ''a'', BSL, CHR ''n'', CHR ''b''] @ [DQ]) =
     Ok (JString [CHR ''a'', NL, CHR ''b'']) \<and>
   DQ \<notin> set ''ab'' \<and> BSL \<notin> set ''ab'' \<and> decode_body ''ab'' = ''ab'' \<and>
   escape_of (CHR ''t'') = None \<and>
   drop 1 [DQ, CHR ''a'', BSL, CHR ''t''] = ''a'' @ BSL # CHR ''t'' # [] \<and>
   stringLoop [DQ, CHR ''a'', BSL, CHR ''t''] 1 [] = Inl (RuntimeError ''Invalid escape sequence'') \<and>
   drop 1 [DQ, CHR ''a'', BSL] = ''a'' @ [BSL] \<and>
   stringLoop [DQ, CHR ''a'', BSL] 1 [] = Inl (RuntimeError ''Invalid escape sequence'') \<and>
   parse ('' '' @ DQ # ''a'' @ BSL # CHR ''t'' # [DQ]) = Err (RuntimeError ''Invalid escape sequence'')"
proof -
  let ?inp = "[DQ, CHR ''a'', BSL, CHR ''n'', CHR ''b'', DQ]"
  let ?body = "[CHR ''a'', BSL, CHR ''n'', CHR ''b'']"
  have h: "valid_body ''a''" "valid_body ''b''" "escape_of (CHR ''n'') = Some NL"
    "escape_of (CHR ''t'') = None" "\<forall>x\<in>set '' ''. isspace x" "list_all isspace '' ''"
    "DQ \<notin> set ''ab''" "BSL \<notin> set ''ab''"
    by (simp_all add: escape_of_def isspace_def)
  have d: "drop 1 ?inp = ''a'' @ BSL # CHR ''n'' # [CHR ''b'', DQ]"
    "drop 1 ?inp = ?body @ DQ # []"
    "drop 1 [DQ, CHR ''a'', BSL, CHR ''t''] = ''a'' @ BSL # CHR ''t'' # []"
    "drop 1 [DQ, CHR ''a'', BSL] = ''a'' @ [BSL]"
    by simp_all
  from string_escapes [of "CHR ''n''" NL 1 ?inp "''a''" "[CHR ''b'', DQ]" "[]" "'' ''" "[]" "''b''"] h d
  have 1: "stringLoop ?inp 1 [] = stringLoop ?inp 4 [CHR ''a'', NL]"
    and 2: "valid_body ?body" and 3: "decode_body ?body = [CHR ''a'', NL, CHR ''b'']"
    by (simp_all add: eval_nat_numeral)
  from string_escapes [of "CHR ''n''" NL 1 ?inp ?body "[]" "[]" "'' ''" "''[''" "[]"] h d 2 3
  have 4: "stringLoop ?inp 1 [] = Inr ([CHR ''a'', NL, CHR ''b''], 6)"
    and 5: "parse ('' '' @ DQ # ?body @ [DQ]) = Ok (JString [CHR ''a'', NL, CHR ''b''])"
    by simp_all
  from string_escapes [of "CHR ''n''" NL 1 ?inp ?body "'']''" "[]" "'' ''" "''[''" "[]"] 2 3
  have 6: "parseString (''['' @ DQ # ?body @ DQ # '']'') (length ''['') =
     Inr ([CHR ''a'', NL, CHR ''b''], 7)"
    by simp
  from string_escapes [of "CHR ''n''" NL 1 ?inp "''ab''" "[]" "[]" "'' ''" "[]" "[]"] h
  have 7: "decode_body ''ab'' = ''ab''"
    by simp
  from string_escapes [of "CHR ''t''" NL 1 "[DQ, CHR ''a'', BSL, CHR ''t'']" "''a''" "[]" "[]" "'' ''"] h d
  have 8: "stringLoop [DQ, CHR ''a'', BSL, CHR ''t''] 1 [] = Inl (RuntimeError ''Invalid escape sequence'')"
    by simp
  from string_escapes [of "CHR ''t''" NL 1 "[DQ, CHR ''a'', BSL]" "''a''" "[DQ]" "[]" "'' ''"] h d
  have 9: "stringLoop [DQ, CHR ''a'', BSL] 1 [] = Inl (RuntimeError ''Invalid escape sequence'')"
    and 10: "parse ('' '' @ DQ # ''a'' @ BSL # CHR ''t'' # [DQ]) = Err (RuntimeError ''Invalid escape sequence'')"
    by simp_all
  from h d 1 2 3 4 5 6 7 8 9 10 show ?thesis by simp
qed

section \<open>Strings that are not closed\<close>

text \<open>
  Claim C7. When a string is opened by a double quote and the input ends before a closing
  quote, with valid escapes only on the way, \<^verbatim>\<open>parseString\<close> throws nothing: it returns the
  characters gathered up to the end of the input, with the cursor at the end. When the
  string is the whole document (after leading whitespace), \<^verbatim>\<open>parse\<close> returns that string.
\<close>

theorem unterminated_string:
  "(valid_body s \<longrightarrow>
      parseString (pre @ DQ # s) (length pre) = Inr (decode_body s, length (pre @ DQ # s))) \<and>
   ((\<forall>x\<in>set ws. isspace x) \<and> valid_body s \<longrightarrow>
      parse (ws @ DQ # s) = Ok (JString (decode_body s))) \<and>
   parse [DQ, CHR ''a'', CHR ''b'', CHR ''c''] = Ok (JString ''abc'')"
proof -
  have loop: "stringLoop (pre @ DQ # s) (Suc (length pre)) [] =
      Inr (decode_body s, length (pre @ DQ # s))" if v: "valid_body s" for pre s
  proof -
    have "drop (Suc (length pre)) (pre @ DQ # s) = s @ []" by simp
    from stringLoop_body[OF this v, of "[]"] stringLoop_eoi[of "pre @ DQ # s"]
    show ?thesis by simp
  qed
  have ps: "parseString (pre @ DQ # s) (length pre) = Inr (decode_body s, length (pre @ DQ # s))"
    if v: "valid_body s" for pre s
    using loop[OF v, of pre] by (simp add: parseString_def get_def)
  have doc: "parse (ws @ DQ # s) = Ok (JString (decode_body s))"
    if ws: "\<forall>x\<in>set ws. isspace x" and v: "valid_body s" for ws s
    using loop[OF v, of ws] skipWhitespace_end[of "ws @ DQ # s"]
    by (simp add: parse_string_document[OF ws])
  have "parse ([] @ DQ # ''abc'') = Ok (JString (decode_body ''abc''))"
    by (rule doc) simp_all
  then have "parse [DQ, CHR ''a'', CHR ''b'', CHR ''c''] = Ok (JString ''abc'')"
    by simp
  with ps doc show ?thesis by blast
qed

theorem unterminated_string_witness:
  "valid_body (''a'' @ [BSL, DQ] @ ''b'') \<and> list_all isspace [CHR '' '', NL] \<and>
   parseString (''['' @ DQ # ''a'' @ [BSL, DQ] @ ''b'') (length ''['') =
     Inr ([CHR ''a'', DQ, CHR ''b''], 6) \<and>
   parse ([CHR '' '', NL] @ DQ # ''a'' @ [BSL, DQ] @ ''b'') = Ok (JString [CHR ''a'', DQ, CHR ''b''])"
proof -
  have h: "valid_body (''a'' @ [BSL, DQ] @ ''b'')" "\<forall>x\<in>set [CHR '' '', NL]. isspace x"
    by (simp_all add: escape_of_def isspace_def)
  from unterminated_string [of "''a'' @ [BSL, DQ] @ ''b''" "''[''" "[CHR '' '', NL]"] h
  show ?thesis by (simp add: escape_of_def)
qed

section \<open>The failures of the parser\<close>

text \<open>
  Every failure of \<^verbatim>\<open>parse\<close> is a runtime error with one of seven messages, or an exception
  that \<^verbatim>\<open>std::stod\<close> throws in the number production. The two messages of \<^verbatim>\<open>parseArray\<close> and
  \<^verbatim>\<open>parseObject\<close> for a missing opening bracket never occur: \<^verbatim>\<open>parseValue\<close> calls them at an
  opening bracket only.
\<close>

lemma failure_messages:
  "failure InvalidArgument" "failure OutOfRange"
  "failure (RuntimeError ''Unexpected trailing characters'')"
  "failure (RuntimeError ''Invalid JSON value'')"
  "failure (RuntimeError (''Expected '' @ [SQ, DQ, SQ]))"
  "failure (RuntimeError ''Invalid escape sequence'')"
  "failure (RuntimeError (''Expected '' @ [SQ, CHR '':'', SQ] @ '' after key''))"
  "failure (RuntimeError (''Expected '' @ [SQ, CHR '','', SQ] @ '' in array''))"
  "failure (RuntimeError (''Expected '' @ [SQ, CHR '','', SQ] @ '' in object''))"
  by (simp_all add: failure_def messages_def)

lemmas failure_simps = failure_messages [simplified]

lemma stringLoop_failure:
  "stringLoop inp pos acc = Inl e \<Longrightarrow> e = RuntimeError ''Invalid escape sequence''"
proof (induction "length inp - pos" arbitrary: pos acc rule: less_induct)
  case less
  have step1: "e = RuntimeError ''Invalid escape sequence''"
    if "stringLoop inp (Suc pos) a = Inl e" "pos < length inp" for a
    using less.hyps[of "Suc pos" a] that by (auto simp: diff_less_mono2)
  have step2: "e = RuntimeError ''Invalid escape sequence''"
    if "stringLoop inp (Suc (Suc pos)) a = Inl e" "Suc pos < length inp" for a
    using less.hyps[of "Suc (Suc pos)" a] that by (auto simp: diff_less_mono2)
  from less.prems show ?case
    by (subst (asm) stringLoop_unfold) (auto split: if_splits dest: step1 step2)
qed

lemma parseString_failure: "parseString inp pos = Inl e \<Longrightarrow> failure e"
  by (auto simp: parseString_def failure_simps split: prod.splits if_splits
      dest!: stringLoop_failure)

lemma stod_failure: "stod s = Inl e \<Longrightarrow> e = InvalidArgument \<or> e = OutOfRange"
  by (auto simp: stod_def round_binary64_def Let_def split: if_splits)

lemma parseNumber_failure: "parseNumber inp pos = Inl e \<Longrightarrow> failure e"
  by (auto simp: parseNumber_token failure_simps split: sum.splits dest: stod_failure)

lemma parser_failures:
  "(parseValue f inp pos = Err e \<longrightarrow> failure e) \<and>
   (parseArray f inp pos = Err e \<longrightarrow> peek inp pos = CHR ''['' \<longrightarrow> failure e) \<and>
   (arrayLoop f inp arr pos = Err e \<longrightarrow> failure e) \<and>
   (parseObject f inp pos = Err e \<longrightarrow> peek inp pos = CHR ''{'' \<longrightarrow> failure e) \<and>
   (objectLoop f inp obj pos = Err e \<longrightarrow> failure e)"
proof (induction f arbitrary: inp pos arr obj e)
  case 0
  show ?case by simp
next
  case (Suc f)
  note IHV = Suc.IH[THEN conjunct1, rule_format]
  note IHA = Suc.IH[THEN conjunct2, THEN conjunct1, rule_format]
  note IHAL = Suc.IH[THEN conjunct2, THEN conjunct2, THEN conjunct1, rule_format]
  note IHO = Suc.IH[THEN conjunct2, THEN conjunct2, THEN conjunct2, THEN conjunct1, rule_format]
  note IHOL = Suc.IH[THEN conjunct2, THEN conjunct2, THEN conjunct2, THEN conjunct2, rule_format]
  have V: "failure e" if "parseValue (Suc f) inp pos = Err e"
    using that unfolding parseValue.simps Let_def
    by (auto simp: failure_simps split: if_splits sum.splits result.splits prod.splits
        dest: parseString_failure parseNumber_failure IHA IHO)
  have A: "failure e" if "parseArray (Suc f) inp pos = Err e" "peek inp pos = CHR ''[''"
    using that unfolding parseArray.simps Let_def
    by (auto simp: get_def peek_def split: if_splits dest: IHAL)
  have AL: "failure e" if "arrayLoop (Suc f) inp arr pos = Err e"
    using that unfolding arrayLoop.simps Let_def
    by (auto simp: failure_simps split: if_splits result.splits prod.splits dest: IHV IHAL)
  have Ob: "failure e" if "parseObject (Suc f) inp pos = Err e" "peek inp pos = CHR ''{''"
    using that unfolding parseObject.simps Let_def
    by (auto simp: get_def peek_def split: if_splits dest: IHOL)
  have OL: "failure e" if "objectLoop (Suc f) inp obj pos = Err e"
    using that unfolding objectLoop.simps Let_def
    by (auto simp: failure_simps split: if_splits sum.splits result.splits prod.splits
        dest: parseString_failure IHV IHOL)
  from V A AL Ob OL show ?case by blast
qed

lemma parse_failures: "parse inp = Err e \<Longrightarrow> failure e"
  using parser_failures[of "fuel_of inp" inp "skipWhitespace inp 0" e]
  by (auto simp: parse_def Let_def failure_simps split: result.splits if_splits)

section \<open>Termination\<close>

text \<open>
  For every input, \<^verbatim>\<open>parse\<close> returns: a value or a failure, and never the exhausted budget.
  The cursor never leaves the input: every operation that moves the cursor, started at a
  position within the input, ends at a position within the input. (\<^verbatim>\<open>printJSON\<close> is
  defined by recursion on the value tree, and so has a result for every value.)
\<close>

lemma parse_terminates_within_input:
  "((\<exists>v. parse inp = Ok v) \<or> (\<exists>e. parse inp = Err e \<and> failure e)) \<and>
   (\<forall>pos\<le>length inp.
      skipWhitespace inp pos \<le> length inp \<and>
      snd (get inp pos) \<le> length inp \<and>
      skipDigits inp pos \<le> length inp \<and>
      (\<forall>acc s p. stringLoop inp pos acc = Inr (s, p) \<longrightarrow> p \<le> length inp) \<and>
      (\<forall>s p. parseString inp pos = Inr (s, p) \<longrightarrow> p \<le> length inp) \<and>
      (\<forall>d p. parseNumber inp pos = Inr (d, p) \<longrightarrow> p \<le> length inp) \<and>
      (\<forall>f v p. parseValue f inp pos = Ok (v, p) \<longrightarrow> p \<le> length inp) \<and>
      (\<forall>f a p. parseArray f inp pos = Ok (a, p) \<longrightarrow> p \<le> length inp) \<and>
      (\<forall>f arr a p. arrayLoop f inp arr pos = Ok (a, p) \<longrightarrow> p \<le> length inp) \<and>
      (\<forall>f ob p. parseObject f inp pos = Ok (ob, p) \<longrightarrow> p \<le> length inp) \<and>
      (\<forall>f obj ob p. objectLoop f inp obj pos = Ok (ob, p) \<longrightarrow> p \<le> length inp))"
proof -
  have ret: "(\<exists>v. parse inp = Ok v) \<or> (\<exists>e. parse inp = Err e \<and> failure e)"
    using parse_returns[of inp] parse_failures[of inp] by (cases "parse inp") auto
  have bnd: "skipWhitespace inp pos \<le> length inp \<and>
      snd (get inp pos) \<le> length inp \<and>
      skipDigits inp pos \<le> length inp \<and>
      (\<forall>acc s p. stringLoop inp pos acc = Inr (s, p) \<longrightarrow> p \<le> length inp) \<and>
      (\<forall>s p. parseString inp pos = Inr (s, p) \<longrightarrow> p \<le> length inp) \<and>
      (\<forall>d p. parseNumber inp pos = Inr (d, p) \<longrightarrow> p \<le> length inp) \<and>
      (\<forall>f v p. parseValue f inp pos = Ok (v, p) \<longrightarrow> p \<le> length inp) \<and>
      (\<forall>f a p. parseArray f inp pos = Ok (a, p) \<longrightarrow> p \<le> length inp) \<and>
      (\<forall>f arr a p. arrayLoop f inp arr pos = Ok (a, p) \<longrightarrow> p \<le> length inp) \<and>
      (\<forall>f ob p. parseObject f inp pos = Ok (ob, p) \<longrightarrow> p \<le> length inp) \<and>
      (\<forall>f obj ob p. objectLoop f inp obj pos = Ok (ob, p) \<longrightarrow> p \<le> length inp)"
    if le: "pos \<le> length inp" for pos
  proof (intro conjI allI impI)
    show "skipWhitespace inp pos \<le> length inp" using le by (rule skipWhitespace_bound)
    show "snd (get inp pos) \<le> length inp" using le by (rule get_snd_bound)
    show "skipDigits inp pos \<le> length inp" using le by (rule skipDigits_bound)
    show "p \<le> length inp" if "stringLoop inp pos acc = Inr (s, p)" for acc s p
      using stringLoop_bound[OF that le] by simp
    show "p \<le> length inp" if "parseString inp pos = Inr (s, p)" for s p
      using parseString_bound[OF that le] by simp
    show "p \<le> length inp" if "parseNumber inp pos = Inr (d, p)" for d p
      using parseNumber_bound[OF that le] by simp
    show "p \<le> length inp" if "parseValue f inp pos = Ok (v, p)" for f v p
      using parser_bounds[of f inp pos v p] that le by simp
    show "p \<le> length inp" if "parseArray f inp pos = Ok (a, p)" for f a p
      using parser_bounds[of f inp pos _ p a] that le by simp
    show "p \<le> length inp" if "arrayLoop f inp arr pos = Ok (a, p)" for f arr a p
      using parser_bounds[of f inp pos _ p a arr] that le by simp
    show "p \<le> length inp" if "parseObject f inp pos = Ok (ob, p)" for f ob p
      using parser_bounds[of f inp pos _ p _ _ ob] that le by simp
    show "p \<le> length inp" if "objectLoop f inp obj pos = Ok (ob, p)" for f obj ob p
      using parser_bounds[of f inp pos _ p _ _ ob obj] that le by simp
  qed
  from ret bnd show ?thesis by blast
qed

text \<open>
  Claim C9 says that \<^verbatim>\<open>parse\<close>, on every input, ends by returning a value or by raising a
  syntax error, with the cursor never beyond the input, and that \<^verbatim>\<open>printJSON\<close> terminates.
  The source departs from it in the kind of the failure: on the input that is a minus sign
  alone, \<^verbatim>\<open>parse\<close> ends (the budget is not exhausted), and it ends neither with a value nor
  with a runtime error of the parser, but with the \<^verbatim>\<open>std::invalid_argument\<close> of \<^verbatim>\<open>std::stod\<close>; the
  same happens for a minus sign inside an array.
\<close>

theorem parse_minus_not_syntax_error:
  "parse ''-'' \<noteq> OutOfFuel \<and>
   (\<forall>v. parse ''-'' \<noteq> Ok v) \<and>
   (\<forall>m. parse ''-'' \<noteq> Err (RuntimeError m)) \<and>
   parse ''[-]'' = Err InvalidArgument"
  by (simp add: parse_eval)

section \<open>Blank input\<close>

text \<open>
  Claim C10. For the empty input, and for every input that consists of whitespace
  characters only, \<^verbatim>\<open>parse\<close> throws the runtime error "Invalid JSON value"; it returns no
  value for such an input.
\<close>

theorem parse_blank_input:
  assumes "\<forall>c\<in>set inp. isspace c"
  shows "parse inp = Err (RuntimeError ''Invalid JSON value'')"
proof -
  from assms have "skipWhitespace inp 0 = length inp"
    by (simp add: skipWhitespace_all)
  then show ?thesis
    by (simp add: parse_def fuel_of_Suc parseValue_at_end del: parseValue.simps)
qed

theorem parse_blank_input_witness:
  "parse [] = Err (RuntimeError ''Invalid JSON value'') \<and>
   parse [CHR '' '', NL, CHR 0x09] = Err (RuntimeError ''Invalid JSON value'')"
  using parse_blank_input [of "[]"] parse_blank_input [of "[CHR '' '', NL, CHR 0x09]"]
  by (simp add: isspace_def)

section \<open>Trailing characters\<close>

text \<open>
  Claim C4. Whenever \<^verbatim>\<open>parseValue\<close> has read one complete value from the start of the input
  and a character that is not whitespace remains behind it, \<^verbatim>\<open>parse\<close> throws "Unexpected
  trailing characters". The keyword \<^verbatim>\<open>true\<close> is matched by comparing four characters, and the
  cursor moves on by four whatever follows; so every input \<^verbatim>\<open>true\<close> followed by text with a
  character that is not whitespace fails with that error, \<^verbatim>\<open>truefoo\<close> among them.
\<close>

theorem parse_trailing_characters:
  "(parseValue (fuel_of inp) inp (skipWhitespace inp 0) = Ok (v, p) \<and>
      (\<exists>c\<in>set (drop p inp). \<not> isspace c)
    \<longrightarrow> parse inp = Err (RuntimeError ''Unexpected trailing characters'')) \<and>
   parseValue (Suc f) (''true'' @ rest) 0 = Ok (JBool True, 4) \<and>
   ((\<exists>c\<in>set rest. \<not> isspace c)
    \<longrightarrow> parse (''true'' @ rest) = Err (RuntimeError ''Unexpected trailing characters'')) \<and>
   parse ''truefoo'' = Err (RuntimeError ''Unexpected trailing characters'')"
proof -
  have general: "parse inp = Err (RuntimeError ''Unexpected trailing characters'')"
    if "parseValue (fuel_of inp) inp (skipWhitespace inp 0) = Ok (v, p)"
      and "\<exists>c\<in>set (drop p inp). \<not> isspace c" for inp v p
    using that skipWhitespace_stops[of p inp] by (simp add: parse_def)
  have sk: "skipWhitespace (CHR ''t'' # r) 0 = 0" for r
    by (simp add: skipWhitespace_eq isspace_def)
  have kw: "parseValue (Suc f) (''true'' @ rest) 0 = Ok (JBool True, 4)" for f rest
    by (simp add: sk peek_def isdigit_def Let_def)
  have loose: "parse (''true'' @ rest) = Err (RuntimeError ''Unexpected trailing characters'')"
    if "\<exists>c\<in>set rest. \<not> isspace c" for rest
  proof (rule general)
    have s0: "skipWhitespace (''true'' @ rest) 0 = 0"
      using sk[of "''rue'' @ rest"] by simp
    show "parseValue (fuel_of (''true'' @ rest)) (''true'' @ rest)
            (skipWhitespace (''true'' @ rest) 0) = Ok (JBool True, 4)"
      unfolding s0 fuel_of_Suc by (rule kw)
    show "\<exists>c\<in>set (drop 4 (''true'' @ rest)). \<not> isspace c"
      using that by simp
  qed
  have "parse ''truefoo'' = Err (RuntimeError ''Unexpected trailing characters'')"
    using loose[of "''foo''"] by (simp add: isspace_def)
  with general kw loose show ?thesis by blast
qed

theorem parse_trailing_characters_witness:
  "parseValue (fuel_of ''null x'') ''null x'' (skipWhitespace ''null x'' 0) = Ok (JNull, 4) \<and>
   (\<exists>c\<in>set (drop 4 ''null x''). \<not> isspace c) \<and>
   (\<exists>c\<in>set ''foo''. \<not> isspace c) \<and>
   parse ''null x'' = Err (RuntimeError ''Unexpected trailing characters'') \<and>
   parse (''true'' @ ''foo'') = Err (RuntimeError ''Unexpected trailing characters'')"
proof -
  have a: "parseValue (fuel_of ''null x'') ''null x'' (skipWhitespace ''null x'' 0) = Ok (JNull, 4)"
    by code_simp
  have b: "\<exists>c\<in>set (drop 4 ''null x''). \<not> isspace c"
    by (simp add: isspace_def)
  have c: "\<exists>c\<in>set ''foo''. \<not> isspace c"
    by (simp add: isspace_def)
  from parse_trailing_characters [of "''null x''" JNull 4 0 "''foo''"] a b c
  show ?thesis by blast
qed

section \<open>The kinds of failure\<close>

text \<open>
  Claim C2 says that every failure of \<^verbatim>\<open>parse\<close> is a syntax error that carries one of the
  fixed messages. The source departs from it: on the input that consists of a minus sign
  alone, the number production hands the text \<open>-\<close> to \<^verbatim>\<open>std::stod\<close>, and \<^verbatim>\<open>parse\<close> fails with
  the \<^verbatim>\<open>std::invalid_argument\<close> that \<^verbatim>\<open>std::stod\<close> throws: no \<^verbatim>\<open>std::runtime_error\<close>, and none
  of the messages.
\<close>

theorem parse_lone_minus: "parse ''-'' = Err InvalidArgument"
  by (simp add: parse_eval)

section \<open>The number production\<close>

text \<open>
  Claim C3, as it is stated, does not hold: a number without a digit before the point,
  or without a digit behind it, is accepted. \<^verbatim>\<open>parse\<close> returns the number \<open>-0.5\<close> for the input
  \<^verbatim>\<open>-.5\<close> and the number \<open>1\<close> for the input \<^verbatim>\<open>1.\<close>.
\<close>

theorem number_shape_counterexample:
  "parse ''-.5'' = Ok (JNumber (Double True 1022 0)) \<and>
   double_val (Double True 1022 0) = - (1 / 2) \<and>
   parse ''1.'' = Ok (JNumber (Double False 1023 0)) \<and>
   double_val (Double False 1023 0) = 1"
  by (simp add: parse_eval double_val_def)

text \<open>
  Claim C3, amended. The number production scans an optional leading \<open>-\<close>, then zero or more
  digits, then an optional point followed by zero or more digits, and hands exactly the
  scanned text to the platform's conversion; the cursor ends behind the scanned text.
  So \<^verbatim>\<open>parse\<close> returns the number \<open>-12.5\<close> for \<^verbatim>\<open>-12.5\<close>; for \<^verbatim>\<open>1e5\<close> the scan stops before the
  \<open>e\<close> and \<^verbatim>\<open>parse\<close> throws "Unexpected trailing characters"; and the texts \<^verbatim>\<open>-.5\<close> and \<^verbatim>\<open>1.\<close>,
  which the conversion accepts, are numbers.
\<close>

theorem number_production:
  "parseNumber inp pos =
     (case stod (number_token (drop pos inp)) of
        Inl e \<Rightarrow> Inl e
      | Inr d \<Rightarrow> Inr (d, pos + length (number_token (drop pos inp)))) \<and>
   parse ''-12.5'' = Ok (JNumber (Double True 1026 2533274790395904)) \<and>
   double_val (Double True 1026 2533274790395904) = - (25 / 2) \<and>
   number_token ''1e5'' = ''1'' \<and>
   parse ''1e5'' = Err (RuntimeError ''Unexpected trailing characters'') \<and>
   number_token ''-.5'' = ''-.5'' \<and>
   parse ''-.5'' = Ok (JNumber (Double True 1022 0)) \<and>
   number_token ''1.'' = ''1.'' \<and>
   parse ''1.'' = Ok (JNumber (Double False 1023 0))"
proof -
  have ex: "parse ''-12.5'' = Ok (JNumber (Double True 1026 2533274790395904))"
    "parse ''1e5'' = Err (RuntimeError ''Unexpected trailing characters'')"
    "parse ''-.5'' = Ok (JNumber (Double True 1022 0))"
    "parse ''1.'' = Ok (JNumber (Double False 1023 0))"
    by (simp_all add: parse_eval)
  have tk: "number_token ''1e5'' = ''1''" "number_token ''-.5'' = ''-.5''"
    "number_token ''1.'' = ''1.''"
    by (simp_all add: number_token_def isdigit_def)
  have dv: "double_val (Double True 1026 2533274790395904) = - (25 / 2)"
    by (simp add: double_val_def)
  from parseNumber_token[of inp pos] ex tk dv show ?thesis by simp
qed

section \<open>The shape of the output\<close>

text \<open>
  Claim C8. For the object with the single key \<open>x\<close> bound to the array of the numbers 1 and
  2, \<^verbatim>\<open>printJSON\<close> writes six lines: the brace, the key with the opening bracket at two
  spaces, the two elements at four spaces with a comma behind the first only, the closing
  bracket at two spaces, and the closing brace, with no newline behind it. The value is
  the one \<^verbatim>\<open>parse\<close> returns for the text \<^verbatim>\<open>{"x":[1,2]}\<close>.
\<close>

theorem printJSON_shape:
  "printJSON (JObject [(''x'', JArray [JNumber (Double False 1023 0),
                                       JNumber (Double False 1024 0)])]) 0 =
     ''{'' @ [NL] @
     ''  '' @ [DQ] @ ''x'' @ [DQ] @ '': ['' @ [NL] @
     ''    1,'' @ [NL] @
     ''    2'' @ [NL] @
     ''  ]'' @ [NL] @
     ''}'' \<and>
   double_val (Double False 1023 0) = 1 \<and> double_val (Double False 1024 0) = 2 \<and>
   parse (''{'' @ [DQ] @ ''x'' @ [DQ] @ '':[1,2]}'') =
     Ok (JObject [(''x'', JArray [JNumber (Double False 1023 0),
                                  JNumber (Double False 1024 0)])])"
  by (simp add: show_double_examples parse_eval double_val_def)

section \<open>Repeated keys\<close>

lemma store_snoc: "store (ms @ [(k, v)]) = AList.update k v (store ms)"
  by (simp add: store_def)

lemma store_Nil: "store [] = []"
  by (simp add: store_def)

lemma objectLoop_members:
  "objectLoop f inp (store ms) pos =
     (case objectMembers f inp ms pos of
        Ok (ms', p) \<Rightarrow> Ok (store ms', p) | Err e \<Rightarrow> Err e | OutOfFuel \<Rightarrow> OutOfFuel)"
proof (induction f arbitrary: ms pos)
  case 0
  show ?case by simp
next
  case (Suc f)
  show ?case
    by (simp add: Let_def store_snoc[symmetric] Suc.IH
        split: sum.splits prod.splits result.splits)
qed

lemma distinct_store: "distinct (map fst (store ms))"
  by (induction ms rule: rev_induct) (auto simp: store_Nil store_snoc distinct_update)

lemma map_of_store: "map_of (store ms) = map_of (rev ms)"
proof (induction ms rule: rev_induct)
  case Nil
  show ?case by (simp add: store_Nil)
next
  case (snoc x xs)
  obtain k v where x: "x = (k, v)" by (cases x)
  show ?case
    by (simp add: x store_snoc update_conv' snoc.IH fun_eq_iff)
qed

lemma keys_store: "fst ` set (store ms) = fst ` set ms"
proof -
  have "dom (map_of (store ms)) = dom (map_of (rev ms))"
    by (simp add: map_of_store)
  then show ?thesis by (simp add: dom_map_of_conv_image_fst)
qed

lemma last_wins:
  assumes "ms = ms1 @ (k, v) # ms2" and "k \<notin> fst ` set ms2"
  shows "map_of (store ms) k = Some v"
proof -
  from assms(2) have "map_of (rev ms2) k = None"
    by (simp add: map_of_eq_None_iff)
  with assms(1) show ?thesis
    by (simp add: map_of_store map_add_def)
qed


lemmas objectMembers_numeral =
  objectMembers.simps(2)[of "pred_numeral n", folded numeral_eq_Suc] for n

text \<open>
  Claim C6. The object that the loop of \<^verbatim>\<open>parseObject\<close> returns is the store of the members
  read in the order of the text. In it every key occurs once, the keys are those of the
  members, and a key is bound to the value of its last occurrence in the text. For the text
  \<^verbatim>\<open>{"a":1,"a":2}\<close> the members are \<open>a: 1\<close> and \<open>a: 2\<close>, and \<^verbatim>\<open>parse\<close> returns the object with
  the single key \<open>a\<close> bound to 2.
\<close>

theorem duplicate_keys:
  "objectLoop f inp [] pos =
     (case objectMembers f inp [] pos of
        Ok (ms', p) \<Rightarrow> Ok (store ms', p) | Err e \<Rightarrow> Err e | OutOfFuel \<Rightarrow> OutOfFuel) \<and>
   distinct (map fst (store ms)) \<and>
   fst ` set (store ms) = fst ` set ms \<and>
   (ms = ms1 @ (k, v) # ms2 \<and> k \<notin> fst ` set ms2 \<longrightarrow> map_of (store ms) k = Some v) \<and>
   objectMembers 39 (''{'' @ [DQ] @ ''a'' @ [DQ] @ '':1,'' @ [DQ] @ ''a'' @ [DQ] @ '':2}'') [] 1 =
     Ok ([(''a'', JNumber (Double False 1023 0)), (''a'', JNumber (Double False 1024 0))], 13) \<and>
   parse (''{'' @ [DQ] @ ''a'' @ [DQ] @ '':1,'' @ [DQ] @ ''a'' @ [DQ] @ '':2}'') =
     Ok (JObject [(''a'', JNumber (Double False 1024 0))]) \<and>
   double_val (Double False 1024 0) = 2"
proof -
  have tr: "objectLoop f inp [] pos =
     (case objectMembers f inp [] pos of
        Ok (ms', p) \<Rightarrow> Ok (store ms', p) | Err e \<Rightarrow> Err e | OutOfFuel \<Rightarrow> OutOfFuel)"
    using objectLoop_members[of f inp "[]" pos] by (simp add: store_Nil)
  have lw: "ms = ms1 @ (k, v) # ms2 \<and> k \<notin> fst ` set ms2 \<longrightarrow> map_of (store ms) k = Some v"
    using last_wins[of ms ms1 k v ms2] by blast
  have ex: "objectMembers 39 (''{'' @ [DQ] @ ''a'' @ [DQ] @ '':1,'' @ [DQ] @ ''a'' @ [DQ] @ '':2}'') [] 1 =
     Ok ([(''a'', JNumber (Double False 1023 0)), (''a'', JNumber (Double False 1024 0))], 13)"
    by (simp add: objectMembers_numeral parse_eval del: objectMembers.simps)
  have pe: "parse (''{'' @ [DQ] @ ''a'' @ [DQ] @ '':1,'' @ [DQ] @ ''a'' @ [DQ] @ '':2}'') =
     Ok (JObject [(''a'', JNumber (Double False 1024 0))])"
    by (simp add: parse_eval)
  have dv: "double_val (Double False 1024 0) = 2"
    by (simp add: double_val_def)
  from tr distinct_store[of ms] keys_store[of ms] lw ex pe dv show ?thesis
    by (simp only: simp_thms)
qed

theorem duplicate_keys_witness:
  "[(''a'', JNumber (Double False 1023 0)), (''a'', JNumber (Double False 1024 0))] =
     [(''a'', JNumber (Double False 1023 0))] @ (''a'', JNumber (Double False 1024 0)) # [] \<and>
   ''a'' \<notin> fst ` set ([] :: (string \<times> JSONValue) list) \<and>
   map_of (store [(''a'', JNumber (Double False 1023 0)), (''a'', JNumber (Double False 1024 0))]) ''a'' =
     Some (JNumber (Double False 1024 0)) \<and>
   store [(''a'', JNumber (Double False 1023 0)), (''a'', JNumber (Double False 1024 0))] =
     [(''a'', JNumber (Double False 1024 0))]"
proof -
  have "store [(''a'', JNumber (Double False 1023 0)), (''a'', JNumber (Double False 1024 0))] =
     [(''a'', JNumber (Double False 1024 0))]"
    by (simp add: store_def)
  with duplicate_keys [of _ _ _ "[(''a'', JNumber (Double False 1023 0)), (''a'', JNumber (Double False 1024 0))]"
      "[(''a'', JNumber (Double False 1023 0))]" "''a''" "JNumber (Double False 1024 0)" "[]"]
  show ?thesis by simp
qed

section \<open>Rendering and parsing again\<close>

lemma plain_body: "plain s \<Longrightarrow> valid_body s \<and> decode_body s = s"
  by (induction s rule: valid_body.induct) (auto simp: plain_def)

lemma skip_ws:
  assumes "drop pos inp = ws @ r" and "\<forall>x\<in>set ws. isspace x"
    and "case r of [] \<Rightarrow> True | c # _ \<Rightarrow> \<not> isspace c"
  shows "skipWhitespace inp pos = pos + length ws"
proof -
  from assms(2,3) have "takeWhile isspace (ws @ r) = ws"
    by (cases r) (auto simp: takeWhile_append2)
  with assms(1) show ?thesis by (simp add: skipWhitespace_eq)
qed

lemma peek_hd: "drop pos inp = c # r \<Longrightarrow> peek inp pos = c"
  by (simp add: peek_drop)

lemma get_hd: "drop pos inp = c # r \<Longrightarrow> get inp pos = (c, Suc pos)"
  by (simp add: get_drop)

lemma parseString_plain:
  assumes "drop pos inp = DQ # s @ DQ # r" and "plain s"
  shows "parseString inp pos = Inr (s, pos + length s + 2)"
proof -
  from assms(1) drop_eq_ConsD[of pos inp DQ "s @ DQ # r"]
  have d1: "drop (Suc pos) inp = s @ DQ # r" by simp
  from drop_add_length[OF d1] have d2: "drop (Suc pos + length s) inp = DQ # r" .
  from plain_body[OF assms(2)] have v: "valid_body s" and dc: "decode_body s = s" by simp_all
  have "stringLoop inp (Suc pos) [] = Inr (s, Suc (Suc pos + length s))"
    using stringLoop_body[OF d1 v, of "[]"] stringLoop_close[OF d2, of s] dc by simp
  then show ?thesis
    using get_hd[OF assms(1)] by (simp add: parseString_def)
qed

lemma number_token_append:
  assumes tok: "number_token s = s" and ne: "s \<noteq> []" and fo: "follow_ok rest"
  shows "number_token (s @ rest) = s"
proof -
  define sgn where "sgn = (case s of c # _ \<Rightarrow> if c = CHR ''-'' then ''-'' else [] | [] \<Rightarrow> [])"
  define s1 where "s1 = drop (length sgn) s"
  define ip where "ip = takeWhile isdigit s1"
  define s2 where "s2 = dropWhile isdigit s1"
  define fr where "fr = (case s2 of c # s3 \<Rightarrow> if c = CHR ''.'' then c # takeWhile isdigit s3 else []
                | [] \<Rightarrow> [])"
  have t: "number_token s = sgn @ ip @ fr"
    by (simp add: number_token_def Let_def sgn_def s1_def ip_def s2_def fr_def)
  have s: "s = sgn @ s1"
    by (auto simp: sgn_def s1_def split: list.splits)
  have s1: "s1 = ip @ s2"
    by (simp add: ip_def s2_def)
  from tok t s s1 have s2: "s2 = fr" by simp
  from fo have nd: "takeWhile isdigit rest = []"
    by (cases rest) (auto simp: follow_ok_def isdigit_def)
  from fo have np: "(case rest of c # s3 \<Rightarrow> if c = CHR ''.'' then c # takeWhile isdigit s3 else []
                | [] \<Rightarrow> []) = []"
    by (cases rest) (auto simp: follow_ok_def)
  have sgn': "(case s @ rest of c # _ \<Rightarrow> if c = CHR ''-'' then ''-'' else [] | [] \<Rightarrow> []) = sgn"
    using ne by (cases s) (auto simp: sgn_def)
  have d: "drop (length sgn) (s @ rest) = s1 @ rest"
    by (subst s) simp
  have nds2: "takeWhile isdigit s2 = []"
    unfolding s2_def by (induction s1) auto
  have ip': "takeWhile isdigit (s1 @ rest) = ip"
  proof (cases s2)
    case Nil
    then have "\<forall>x\<in>set s1. isdigit x"
      by (simp add: s2_def)
    with nd Nil s1 show ?thesis by (simp add: takeWhile_append2 ip_def)
  next
    case (Cons c s3)
    with nds2 have "\<not> isdigit c" by (auto split: if_splits)
    have "\<forall>x\<in>set ip. isdigit x"
      unfolding ip_def by (meson set_takeWhileD)
    then show ?thesis
      by (subst s1) (simp add: takeWhile_append2 Cons \<open>\<not> isdigit c\<close>)
  qed
  have dw: "dropWhile isdigit (s1 @ rest) = s2 @ rest"
  proof -
    have "takeWhile isdigit (s1 @ rest) @ dropWhile isdigit (s1 @ rest) = ip @ s2 @ rest"
      using s1 by simp
    with ip' show ?thesis by simp
  qed
  have fr': "(case s2 @ rest of c # s3 \<Rightarrow> if c = CHR ''.'' then c # takeWhile isdigit s3 else []
                | [] \<Rightarrow> []) = fr"
  proof (cases s2)
    case Nil
    with np s2 show ?thesis by simp
  next
    case (Cons c s3)
    show ?thesis
    proof (cases "c = CHR ''.''")
      case True
      have "s2 = (case s2 of c # s3 \<Rightarrow> if c = CHR ''.'' then c # takeWhile isdigit s3 else []
                | [] \<Rightarrow> [])"
        by (rule trans[OF s2 fr_def])
      then have "s3 = takeWhile isdigit s3"
        unfolding Cons using True by simp
      then have "\<forall>x\<in>set s3. isdigit x"
        by (metis set_takeWhileD)
      then have tw: "takeWhile isdigit (s3 @ rest) = s3" "takeWhile isdigit s3 = s3"
        using nd by (simp_all add: takeWhile_append2)
      show ?thesis
        by (simp add: fr_def Cons True tw)
    next
      case False
      with Cons show ?thesis by (simp add: fr_def)
    qed
  qed
  have "number_token (s @ rest) = sgn @ ip @ fr"
    unfolding number_token_def Let_def sgn' d ip' dw fr' ..
  with t tok show ?thesis by simp
qed

lemma parseNumber_reparsable:
  assumes "drop pos inp = show_double d @ rest" and "number_reparsable d" and "follow_ok rest"
  shows "parseNumber inp pos = Inr (d, pos + length (show_double d))"
proof -
  from assms(2) have ne: "show_double d \<noteq> []" and tok: "number_token (show_double d) = show_double d"
    and st: "stod (show_double d) = Inr d"
    by (auto simp: number_reparsable_def Let_def split: list.splits)
  from number_token_append[OF tok ne assms(3)] assms(1) st show ?thesis
    by (simp add: parseNumber_token)
qed


lemma isspace_chars:
  "isspace NL" "isspace (CHR '' '')" "\<not> isspace DQ" "\<not> isspace (CHR '','')"
  "\<not> isspace (CHR '':'')" "\<not> isspace (CHR '']'')" "\<not> isspace (CHR ''}'')"
  "\<not> isspace (CHR ''['')" "\<not> isspace (CHR ''{'')"
  "\<not> isspace (CHR ''t'')" "\<not> isspace (CHR ''f'')" "\<not> isspace (CHR ''n'')"
  by (simp_all add: isspace_def)

lemma value_start_simps:
  "value_start c \<Longrightarrow> \<not> isspace c"
  "value_start c \<Longrightarrow> c \<noteq> CHR '']''"
  "value_start c \<Longrightarrow> c \<noteq> CHR ''}''"
  by (auto simp: value_start_def isspace_def isdigit_def)

lemma printJSON_start:
  "reparsable v \<Longrightarrow> \<exists>c cs. printJSON v indent = c # cs \<and> value_start c"
  by (cases v)
     (auto simp: value_start_def number_reparsable_def Let_def split: list.splits)

lemma parseValue_skip: "parseValue f inp (skipWhitespace inp pos) = parseValue f inp pos"
  by (cases f) (simp_all add: Let_def)

lemma arrayLoop_skip: "arrayLoop f inp acc (skipWhitespace inp pos) = arrayLoop f inp acc pos"
  by (cases f) (simp_all add: parseValue_skip)

lemma objectLoop_skip: "objectLoop f inp acc (skipWhitespace inp pos) = objectLoop f inp acc pos"
  by (cases f) (simp_all add: Let_def)

lemma parseValue_dispatch:
  assumes d: "drop pos inp = ws @ c # r" and ws: "\<forall>x\<in>set ws. isspace x" and c: "\<not> isspace c"
  shows "parseValue (Suc f) inp pos =
     (let p = pos + length ws in
      if c = DQ then
        (case parseString inp p of Inl e \<Rightarrow> Err e | Inr (s, q) \<Rightarrow> Ok (JString s, q))
      else if c = CHR ''{'' then
        (case parseObject f inp p of
           Ok (obj, q) \<Rightarrow> Ok (JObject obj, q) | Err e \<Rightarrow> Err e | OutOfFuel \<Rightarrow> OutOfFuel)
      else if c = CHR ''['' then
        (case parseArray f inp p of
           Ok (arr, q) \<Rightarrow> Ok (JArray arr, q) | Err e \<Rightarrow> Err e | OutOfFuel \<Rightarrow> OutOfFuel)
      else if isdigit c \<or> c = CHR ''-'' then
        (case parseNumber inp p of Inl e \<Rightarrow> Err e | Inr (d, q) \<Rightarrow> Ok (JNumber d, q))
      else if take 4 (c # r) = ''true'' then Ok (JBool True, p + 4)
      else if take 5 (c # r) = ''false'' then Ok (JBool False, p + 5)
      else if take 4 (c # r) = ''null'' then Ok (JNull, p + 4)
      else Err (RuntimeError ''Invalid JSON value''))"
proof -
  have sk: "skipWhitespace inp pos = pos + length ws"
    using d ws c by (intro skip_ws[of pos inp ws "c # r"]) simp_all
  have dp: "drop (pos + length ws) inp = c # r"
    using d by (rule drop_add_length)
  have pk: "peek inp (pos + length ws) = c"
    using dp by (rule peek_hd)
  show ?thesis
    unfolding parseValue.simps Let_def sk pk dp ..
qed

lemma closing:
  assumes "drop p inp = NL # replicate n (CHR '' '') @ c # rest" and "\<not> isspace c"
  shows "skipWhitespace inp p = p + n + 1"
    and "peek inp (p + n + 1) = c"
    and "get inp (p + n + 1) = (c, p + n + 2)"
proof -
  have "drop p inp = (NL # replicate n (CHR '' '')) @ c # rest"
    using assms(1) by simp
  note d = this
  have "skipWhitespace inp p = p + length (NL # replicate n (CHR '' ''))"
    using d assms(2) by (intro skip_ws[of p inp _ "c # rest"]) (auto simp: isspace_def)
  then show "skipWhitespace inp p = p + n + 1" by simp
  from drop_add_length[OF d] have "drop (p + n + 1) inp = c # rest" by simp
  then show "peek inp (p + n + 1) = c" "get inp (p + n + 1) = (c, p + n + 2)"
    by (simp_all add: peek_hd get_hd)
qed

lemma update_new: "k \<notin> fst ` set acc \<Longrightarrow> AList.update k v acc = acc @ [(k, v)]"
  by (induction acc) auto


lemma reparse_value:
    "reparsable v \<Longrightarrow> \<forall>x\<in>set ws. isspace x \<Longrightarrow> follow_ok rest \<Longrightarrow>
     drop pos inp = ws @ printJSON v indent @ rest \<Longrightarrow>
     parseValue f inp pos = OutOfFuel \<or>
     parseValue f inp pos = Ok (v, pos + length ws + length (printJSON v indent))"
  and reparse_array:
    "arr \<noteq> [] \<Longrightarrow> reparsable_array arr \<Longrightarrow> \<forall>x\<in>set ws. isspace x \<Longrightarrow>
     drop pos inp = ws @ printArray arr indent @ replicate indent (CHR '' '') @ CHR '']'' # rest \<Longrightarrow>
     arrayLoop f inp acc pos = OutOfFuel \<or>
     arrayLoop f inp acc pos =
       Ok (acc @ arr, pos + length ws + length (printArray arr indent) + indent + 1)"
  and reparse_object:
    "obj \<noteq> [] \<Longrightarrow> reparsable_object obj \<Longrightarrow> distinct (map fst obj) \<Longrightarrow>
     fst ` set ac \<inter> fst ` set obj = {} \<Longrightarrow> \<forall>x\<in>set ws. isspace x \<Longrightarrow>
     drop pos inp = ws @ printObject obj indent @ replicate indent (CHR '' '') @ CHR ''}'' # rest \<Longrightarrow>
     objectLoop f inp ac pos = OutOfFuel \<or>
     objectLoop f inp ac pos =
       Ok (ac @ obj, pos + length ws + length (printObject obj indent) + indent + 1)"
proof (induction v indent and arr indent and obj indent
    arbitrary: ws rest pos f and ws rest pos f acc and ws rest pos f ac
    rule: printJSON_printArray_printObject.induct)
  case (1 indent)
  show ?case
  proof (cases f)
    case 0
    then show ?thesis by simp
  next
    case (Suc g)
    from "1.prems" have d: "drop pos inp = ws @ CHR ''n'' # (''ull'' @ rest)" by simp
    from parseValue_dispatch[OF d "1.prems"(2), of g] show ?thesis
      by (simp add: Suc isspace_chars isdigit_def Let_def)
  qed
next
  case (2 b indent)
  show ?case
  proof (cases f)
    case 0
    then show ?thesis by simp
  next
    case (Suc g)
    show ?thesis
    proof (cases b)
      case True
      with "2.prems" have d: "drop pos inp = ws @ CHR ''t'' # (''rue'' @ rest)" by simp
      from parseValue_dispatch[OF d "2.prems"(2), of g] show ?thesis
        by (simp add: Suc True isspace_chars isdigit_def Let_def)
    next
      case False
      with "2.prems" have d: "drop pos inp = ws @ CHR ''f'' # (''alse'' @ rest)" by simp
      from parseValue_dispatch[OF d "2.prems"(2), of g] show ?thesis
        by (simp add: Suc False isspace_chars isdigit_def Let_def)
    qed
  qed
next
  case (3 d indent)
  show ?case
  proof (cases f)
    case 0
    then show ?thesis by simp
  next
    case (Suc g)
    from "3.prems"(1) obtain c cs where sd: "show_double d = c # cs"
      and c: "isdigit c \<or> c = CHR ''-''" and nr: "number_reparsable d"
      by (auto simp: number_reparsable_def Let_def split: list.splits)
    from c have cn: "\<not> isspace c" "c \<noteq> DQ" "c \<noteq> CHR ''{''" "c \<noteq> CHR ''[''"
      by (auto simp: isspace_def isdigit_def)
    from "3.prems" sd have dd: "drop pos inp = ws @ c # (cs @ rest)" by simp
    from "3.prems"(4) have "drop pos inp = ws @ show_double d @ rest" by simp
    from drop_add_length[OF this]
    have "drop (pos + length ws) inp = show_double d @ rest" .
    from parseNumber_reparsable[OF this nr "3.prems"(3)]
    have pn: "parseNumber inp (pos + length ws) = Inr (d, pos + length ws + length (show_double d))" .
    from parseValue_dispatch[OF dd "3.prems"(2) cn(1), of g] cn c pn show ?thesis
      by (simp add: Suc Let_def)
  qed
next
  case (4 s indent)
  show ?case
  proof (cases f)
    case 0
    then show ?thesis by simp
  next
    case (Suc g)
    from "4.prems" have dd: "drop pos inp = ws @ DQ # (s @ DQ # rest)" by simp
    from drop_add_length[OF dd] have "drop (pos + length ws) inp = DQ # s @ DQ # rest" .
    from parseString_plain[OF this] "4.prems"(1)
    have ps: "parseString inp (pos + length ws) = Inr (s, pos + length ws + length s + 2)"
      by simp
    from parseValue_dispatch[OF dd "4.prems"(2), of g] ps show ?thesis
      by (simp add: Suc Let_def isspace_chars)
  qed
next
  case (5 arr indent)
  show ?case
  proof (cases f)
    case 0
    then show ?thesis by simp
  next
    case (Suc g)
    let ?tail = "replicate indent (CHR '' '') @ CHR '']'' # rest"
    from "5.prems" have dd: "drop pos inp = ws @ CHR ''['' # (NL # printArray arr indent @ ?tail)"
      by simp
    let ?p = "pos + length ws"
    from drop_add_length[OF dd]
    have dp: "drop ?p inp = CHR ''['' # NL # printArray arr indent @ ?tail" .
    from drop_eq_ConsD[OF dp]
    have d1: "drop (Suc ?p) inp = NL # printArray arr indent @ ?tail" by simp
    have pa: "parseArray g inp ?p = OutOfFuel \<or>
      parseArray g inp ?p = Ok (arr, ?p + length (printJSON (JArray arr) indent))"
    proof (cases g)
      case 0
      then show ?thesis by simp
    next
      case (Suc h)
      show ?thesis
      proof (cases arr)
        case Nil
        with d1 have "drop (Suc ?p) inp = NL # replicate indent (CHR '' '') @ CHR '']'' # rest"
          by simp
        from closing[OF this] get_hd[OF dp] show ?thesis
          by (simp add: Suc Nil isspace_chars)
      next
        case (Cons v1 more)
        with "5.prems"(1) have "reparsable v1" by simp
        from printJSON_start[OF this, of "Suc (Suc indent)"] obtain c cs
          where st: "printJSON v1 (Suc (Suc indent)) = c # cs" and vs: "value_start c" by blast
        have "drop (Suc ?p) inp =
            (NL # replicate (indent + 2) (CHR '' '')) @ c #
              (cs @ (if more \<noteq> [] then '','' else []) @ [NL] @ printArray more indent @ ?tail)"
          using d1 by (simp add: Cons st)
        note d2 = this
        have sk: "skipWhitespace inp (Suc ?p) = Suc ?p + length (NL # replicate (indent + 2) (CHR '' ''))"
          using d2 value_start_simps(1)[OF vs]
          by (intro skip_ws[OF d2]) (auto simp: isspace_chars)
        from drop_add_length[OF d2] have pk: "peek inp (skipWhitespace inp (Suc ?p)) = c"
          unfolding sk by (rule peek_hd)
        have d1': "drop (Suc ?p) inp = [NL] @ printArray arr indent @ ?tail"
          using d1 by simp
        have ne: "arr \<noteq> []" using Cons by simp
        from "5.IH"[OF ne _ _ d1', of h "[]"] "5.prems"(1)
        have "arrayLoop h inp [] (Suc ?p) = OutOfFuel \<or>
            arrayLoop h inp [] (Suc ?p) =
              Ok (arr, Suc ?p + 1 + length (printArray arr indent) + indent + 1)"
          by (simp add: isspace_chars)
        then have "arrayLoop h inp [] (skipWhitespace inp (Suc ?p)) = OutOfFuel \<or>
            arrayLoop h inp [] (skipWhitespace inp (Suc ?p)) =
              Ok (arr, Suc ?p + 1 + length (printArray arr indent) + indent + 1)"
          by (simp only: arrayLoop_skip)
        with pk value_start_simps(2)[OF vs] get_hd[OF dp] show ?thesis
          by (auto simp: Suc)
      qed
    qed
    from parseValue_dispatch[OF dd "5.prems"(2), of g] pa show ?thesis
      by (auto simp: Suc Let_def isspace_chars)
  qed
next
  case (6 obj indent)
  show ?case
  proof (cases f)
    case 0
    then show ?thesis by simp
  next
    case (Suc g)
    let ?tail = "replicate indent (CHR '' '') @ CHR ''}'' # rest"
    from "6.prems" have dd: "drop pos inp = ws @ CHR ''{'' # (NL # printObject obj indent @ ?tail)"
      by simp
    let ?p = "pos + length ws"
    from drop_add_length[OF dd]
    have dp: "drop ?p inp = CHR ''{'' # NL # printObject obj indent @ ?tail" .
    from drop_eq_ConsD[OF dp]
    have d1: "drop (Suc ?p) inp = NL # printObject obj indent @ ?tail" by simp
    have pa: "parseObject g inp ?p = OutOfFuel \<or>
      parseObject g inp ?p = Ok (obj, ?p + length (printJSON (JObject obj) indent))"
    proof (cases g)
      case 0
      then show ?thesis by simp
    next
      case (Suc h)
      show ?thesis
      proof (cases obj)
        case Nil
        with d1 have "drop (Suc ?p) inp = NL # replicate indent (CHR '' '') @ CHR ''}'' # rest"
          by simp
        from closing[OF this] get_hd[OF dp] show ?thesis
          by (simp add: Suc Nil isspace_chars)
      next
        case (Cons kv more)
        obtain key v1 where kv: "kv = (key, v1)" by (cases kv)
        have "drop (Suc ?p) inp =
            (NL # replicate (indent + 2) (CHR '' '')) @ DQ #
              (key @ [DQ] @ '': '' @ printJSON v1 (indent + 2) @
               (if more \<noteq> [] then '','' else []) @ [NL] @ printObject more indent @ ?tail)"
          using d1 by (simp add: Cons kv)
        note d2 = this
        have sk: "skipWhitespace inp (Suc ?p) = Suc ?p + length (NL # replicate (indent + 2) (CHR '' ''))"
          by (intro skip_ws[OF d2]) (auto simp: isspace_chars)
        from drop_add_length[OF d2] have pk: "peek inp (skipWhitespace inp (Suc ?p)) = DQ"
          unfolding sk by (rule peek_hd)
        have d1': "drop (Suc ?p) inp = [NL] @ printObject obj indent @ ?tail"
          using d1 by simp
        have ne: "obj \<noteq> []" using Cons by simp
        from "6.IH"[OF ne _ _ _ _ d1', of "[]" h] "6.prems"(1)
        have "objectLoop h inp [] (Suc ?p) = OutOfFuel \<or>
            objectLoop h inp [] (Suc ?p) =
              Ok (obj, Suc ?p + 1 + length (printObject obj indent) + indent + 1)"
          by (simp add: isspace_chars)
        then have "objectLoop h inp [] (skipWhitespace inp (Suc ?p)) = OutOfFuel \<or>
            objectLoop h inp [] (skipWhitespace inp (Suc ?p)) =
              Ok (obj, Suc ?p + 1 + length (printObject obj indent) + indent + 1)"
          by (simp only: objectLoop_skip)
        with pk get_hd[OF dp] show ?thesis
          by (auto simp: Suc)
      qed
    qed
    from parseValue_dispatch[OF dd "6.prems"(2), of g] pa show ?thesis
      by (auto simp: Suc Let_def isspace_chars)
  qed
next
  case (7 indent)
  then show ?case by simp
next
  case (8 v arr indent)
  show ?case
  proof (cases f)
    case 0
    then show ?thesis by simp
  next
    case (Suc g)
    let ?tail = "replicate indent (CHR '' '') @ CHR '']'' # rest"
    let ?sep = "if arr \<noteq> [] then '','' else []"
    let ?ws = "ws @ replicate (indent + 2) (CHR '' '')"
    let ?rest = "?sep @ [NL] @ printArray arr indent @ ?tail"
    let ?p1 = "pos + length ?ws + length (printJSON v (indent + 2))"
    from "8.prems" have rv: "reparsable v" and ra: "reparsable_array arr" by simp_all
    have dd: "drop pos inp = ?ws @ printJSON v (indent + 2) @ ?rest"
      using "8.prems"(4) by simp
    have wsp: "\<forall>x\<in>set ?ws. isspace x"
      using "8.prems"(3) by (auto simp: isspace_chars)
    have fo: "follow_ok ?rest"
      by (simp add: follow_ok_def)
    from "8.IH"(1)[OF rv wsp fo dd, of g]
    consider "parseValue g inp pos = OutOfFuel" | "parseValue g inp pos = Ok (v, ?p1)"
      by blast
    then show ?thesis
    proof cases
      case 1
      then show ?thesis by (simp add: Suc)
    next
      case 2
      have "drop pos inp = (?ws @ printJSON v (indent + 2)) @ ?rest"
        using dd by simp
      from drop_add_length[OF this] have d1: "drop ?p1 inp = ?rest" by (simp add: add.assoc)
      show ?thesis
      proof (cases arr)
        case Nil
        with d1 have "drop ?p1 inp = NL # replicate indent (CHR '' '') @ CHR '']'' # rest"
          by simp
        from closing[OF this] 2 show ?thesis
          by (simp add: Suc Nil isspace_chars)
      next
        case (Cons v2 more)
        with d1 have d2: "drop ?p1 inp = [] @ CHR '','' # ([NL] @ printArray arr indent @ ?tail)"
          by simp
        have sk: "skipWhitespace inp ?p1 = ?p1"
          using skip_ws[OF d2] by (simp add: isspace_chars)
        from d2 have pk: "peek inp ?p1 = CHR '',''" and gt: "get inp ?p1 = (CHR '','', Suc ?p1)"
          by (simp_all add: peek_hd get_hd)
        from d2 drop_eq_ConsD[of ?p1 inp "CHR '',''" "[NL] @ printArray arr indent @ ?tail"]
        have d3: "drop (Suc ?p1) inp = [NL] @ printArray arr indent @ ?tail" by simp
        have ne: "arr \<noteq> []" using Cons by simp
        from "8.IH"(2)[OF ne ra _ d3, of g "acc @ [v]"]
        have "arrayLoop g inp (acc @ [v]) (Suc ?p1) = OutOfFuel \<or>
            arrayLoop g inp (acc @ [v]) (Suc ?p1) =
              Ok ((acc @ [v]) @ arr, Suc ?p1 + 1 + length (printArray arr indent) + indent + 1)"
          by (simp add: isspace_chars)
        with 2 sk pk gt ne show ?thesis
          by (auto simp: Suc)
      qed
    qed
  qed
next
  case (9 indent)
  then show ?case by simp
next
  case (10 key v obj indent)
  show ?case
  proof (cases f)
    case 0
    then show ?thesis by simp
  next
    case (Suc g)
    let ?tail = "replicate indent (CHR '' '') @ CHR ''}'' # rest"
    let ?sep = "if obj \<noteq> [] then '','' else []"
    let ?ws = "ws @ replicate (indent + 2) (CHR '' '')"
    let ?rest = "?sep @ [NL] @ printObject obj indent @ ?tail"
    let ?p1 = "pos + length ?ws"
    let ?p2 = "?p1 + length key + 2"
    let ?p6 = "Suc ?p2 + 1 + length (printJSON v (indent + 2))"
    from "10.prems" have pk: "plain key" and rv: "reparsable v" and ro: "reparsable_object obj"
      and dk: "key \<notin> fst ` set obj" and ds: "distinct (map fst obj)"
      and nk: "key \<notin> fst ` set ac" and dj: "fst ` set ac \<inter> fst ` set obj = {}"
      by auto
    have dd: "drop pos inp = ?ws @ DQ # (key @ DQ # '': '' @ printJSON v (indent + 2) @ ?rest)"
      using "10.prems"(6) by simp
    have wsp: "\<forall>x\<in>set ?ws. isspace x"
      using "10.prems"(5) by (auto simp: isspace_chars)
    have sk1: "skipWhitespace inp pos = ?p1"
      by (intro skip_ws[OF dd wsp]) (simp add: isspace_chars)
    from drop_add_length[OF dd]
    have d1: "drop ?p1 inp = DQ # key @ DQ # ('': '' @ printJSON v (indent + 2) @ ?rest)" .
    from parseString_plain[OF d1 pk] have ps: "parseString inp ?p1 = Inr (key, ?p2)" .
    have "drop ?p1 inp = (DQ # key @ [DQ]) @ '': '' @ printJSON v (indent + 2) @ ?rest"
      using d1 by simp
    from drop_add_length[OF this]
    have d2: "drop ?p2 inp = [] @ CHR '':'' # ('' '' @ printJSON v (indent + 2) @ ?rest)"
      by simp
    have sk2: "skipWhitespace inp ?p2 = ?p2"
      using skip_ws[OF d2] by (simp add: isspace_chars)
    from d2 have gt2: "get inp ?p2 = (CHR '':'', Suc ?p2)"
      by (simp add: get_hd)
    from d2 drop_eq_ConsD[of ?p2 inp "CHR '':''" "'' '' @ printJSON v (indent + 2) @ ?rest"]
    have d3: "drop (Suc ?p2) inp = '' '' @ printJSON v (indent + 2) @ ?rest" by simp
    have fo: "follow_ok ?rest"
      by (simp add: follow_ok_def)
    from "10.IH"(1)[OF rv _ fo d3, of g]
    have "parseValue g inp (Suc ?p2) = OutOfFuel \<or> parseValue g inp (Suc ?p2) = Ok (v, ?p6)"
      by (simp add: isspace_chars)
    then consider "parseValue g inp (skipWhitespace inp (Suc ?p2)) = OutOfFuel"
      | "parseValue g inp (skipWhitespace inp (Suc ?p2)) = Ok (v, ?p6)"
      unfolding parseValue_skip by blast
    then show ?thesis
    proof cases
      case 1
      with sk1 ps sk2 gt2 show ?thesis
        by (simp add: Suc Let_def)
    next
      case 2
      have "drop (Suc ?p2) inp = ('' '' @ printJSON v (indent + 2)) @ ?rest"
        using d3 by simp
      from drop_add_length[OF this] have d6: "drop ?p6 inp = ?rest" by (simp add: add.assoc)
      have up: "AList.update key v ac = ac @ [(key, v)]"
        using nk by (rule update_new)
      show ?thesis
      proof (cases obj)
        case Nil
        with d6 have "drop ?p6 inp = NL # replicate indent (CHR '' '') @ CHR ''}'' # rest"
          by simp
        from closing[OF this] 2 sk1 ps sk2 gt2 up show ?thesis
          by (simp add: Suc Nil Let_def isspace_chars)
      next
        case (Cons kv more)
        with d6 have d7: "drop ?p6 inp = [] @ CHR '','' # ([NL] @ printObject obj indent @ ?tail)"
          by simp
        have sk7: "skipWhitespace inp ?p6 = ?p6"
          using skip_ws[OF d7] by (simp add: isspace_chars)
        from d7 have pk7: "peek inp ?p6 = CHR '',''" and gt7: "get inp ?p6 = (CHR '','', Suc ?p6)"
          by (simp_all add: peek_hd get_hd)
        from d7 drop_eq_ConsD[of ?p6 inp "CHR '',''" "[NL] @ printObject obj indent @ ?tail"]
        have d8: "drop (Suc ?p6) inp = [NL] @ printObject obj indent @ ?tail" by simp
        have ne: "obj \<noteq> []" using Cons by simp
        have dj': "fst ` set (ac @ [(key, v)]) \<inter> fst ` set obj = {}"
          using dj dk by auto
        from "10.IH"(2)[OF ne ro ds dj' _ d8, of g]
        have "objectLoop g inp (ac @ [(key, v)]) (Suc ?p6) = OutOfFuel \<or>
            objectLoop g inp (ac @ [(key, v)]) (Suc ?p6) =
              Ok ((ac @ [(key, v)]) @ obj, Suc ?p6 + 1 + length (printObject obj indent) + indent + 1)"
          by (simp add: isspace_chars)
        with 2 sk1 ps sk2 gt2 up sk7 pk7 gt7 ne show ?thesis
          by (auto simp: Suc Let_def)
      qed
    qed
  qed
qed

lemma same_array_refl: "(\<And>x. x \<in> set a \<Longrightarrow> same_value x x) \<Longrightarrow> same_array a a"
  by (induction a) auto

lemma member_in_refl: "(k, x) \<in> set b \<Longrightarrow> same_value x x \<Longrightarrow> member_in k x b"
  by (induction b) auto

lemma members_in_refl:
  "(\<And>k x. (k, x) \<in> set a \<Longrightarrow> member_in k x b) \<Longrightarrow> members_in a b"
  by (induction a) auto

lemma same_value_refl: "same_value v v"
proof (induction v)
  case (JArray a)
  then show ?case by (simp add: same_array_refl)
next
  case (JObject obj)
  have "member_in k x obj" if "(k, x) \<in> set obj" for k x
    using that JObject[of "(k, x)" x] by (auto intro: member_in_refl)
  then show ?case by (simp add: members_in_refl)
qed simp_all

lemma round_trip_model:
  assumes "reparsable v"
  shows "parse (printJSON v indent) = Ok v"
proof -
  let ?inp = "printJSON v indent"
  from printJSON_start[OF assms, of indent] obtain c cs
    where st: "?inp = c # cs" and vs: "value_start c" by blast
  have d0: "drop 0 ?inp = [] @ c # cs"
    using st by simp
  have sk: "skipWhitespace ?inp 0 = 0"
    using skip_ws[OF d0] value_start_simps(1)[OF vs] by simp
  have d: "drop 0 ?inp = [] @ printJSON v indent @ []"
    by simp
  have fo: "follow_ok []"
    by (simp add: follow_ok_def)
  from reparse_value[OF assms _ fo d, of "fuel_of ?inp"]
  have "parseValue (fuel_of ?inp) ?inp 0 = OutOfFuel \<or>
      parseValue (fuel_of ?inp) ?inp 0 = Ok (v, length ?inp)"
    by simp
  moreover have "parseValue (fuel_of ?inp) ?inp 0 \<noteq> OutOfFuel"
    using fuel_enough[of 0 ?inp "fuel_of ?inp"] by (simp add: fuel_of_def)
  ultimately have "parseValue (fuel_of ?inp) ?inp 0 = Ok (v, length ?inp)"
    by blast
  then show ?thesis
    by (simp add: parse_def sk)
qed

lemma number_reparsable_examples:
  "number_reparsable (Double False 1023 0)"
  "number_reparsable (Double False 1024 0)"
  "number_reparsable (Double True 1026 2533274790395904)"
  by (simp_all add: number_reparsable_def show_double_examples number_token_def isdigit_def
      stod_examples)

lemma stod_more:
  "stod ''0.123457'' = Inr (Double False 1019 4392414759769973)"
  by (simp add: stod_eval)

lemma show_double_more:
  "show_double (Double False 1019 4392393142491762) = ''0.123457''"
  by (simp add: show_eval)

text \<open>
  Claim C1, as it is stated, does not hold. The string that consists of one double quote is
  written as three double quotes, which \<^verbatim>\<open>parse\<close> rejects; the string that consists of one
  backslash is written as quote, backslash, quote, which \<^verbatim>\<open>parse\<close> reads as the string of one
  double quote. The number 1000000 is written \<^verbatim>\<open>1e+06\<close>, which \<^verbatim>\<open>parse\<close> rejects, and the double
  nearest to 0.1234567 is written \<^verbatim>\<open>0.123457\<close>, which \<^verbatim>\<open>parse\<close> reads as another double.
\<close>

theorem round_trip_counterexample:
  "parse (printJSON (JString [DQ]) 0) = Err (RuntimeError ''Unexpected trailing characters'') \<and>
   parse (printJSON (JString [BSL]) 0) = Ok (JString [DQ]) \<and>
   printJSON (JNumber (Double False 1042 4086334964629504)) 0 = ''1e+06'' \<and>
   double_val (Double False 1042 4086334964629504) = 1000000 \<and>
   parse (printJSON (JNumber (Double False 1042 4086334964629504)) 0) =
     Err (RuntimeError ''Unexpected trailing characters'') \<and>
   parse (printJSON (JNumber (Double False 1019 4392393142491762)) 0) =
     Ok (JNumber (Double False 1019 4392414759769973))"
  by (simp add: parse_eval show_double_examples show_double_more stod_more double_val_def)

text \<open>
  Claim C1, amended. For every value tree in which no string and no key holds a double
  quote or a backslash, and in which every number is written by the default output format
  as a text that the number production scans whole and converts back to the same double,
  parsing the text that \<^verbatim>\<open>printJSON\<close> writes for the tree succeeds, and yields a tree that is
  the same as the given one but for the order of the entries of its objects.
\<close>

theorem round_trip:
  assumes "reparsable v"
  shows "\<exists>v'. parse (printJSON v indent) = Ok v' \<and> same_value v' v"
  using round_trip_model[OF assms, of indent] same_value_refl[of v] by simp

theorem round_trip_witness:
  "reparsable (JObject [(''x'', JArray [JNumber (Double False 1023 0),
                                        JNumber (Double True 1026 2533274790395904)]),
                        (''s'', JString ''a b''), (''n'', JNull), (''t'', JBool True)]) \<and>
   (\<exists>v'. parse (printJSON (JObject [(''x'', JArray [JNumber (Double False 1023 0),
                                        JNumber (Double True 1026 2533274790395904)]),
                        (''s'', JString ''a b''), (''n'', JNull), (''t'', JBool True)]) 0) = Ok v' \<and>
      same_value v' (JObject [(''x'', JArray [JNumber (Double False 1023 0),
                                        JNumber (Double True 1026 2533274790395904)]),
                        (''s'', JString ''a b''), (''n'', JNull), (''t'', JBool True)]))"
proof -
  have r: "reparsable (JObject [(''x'', JArray [JNumber (Double False 1023 0),
                                        JNumber (Double True 1026 2533274790395904)]),
                        (''s'', JString ''a b''), (''n'', JNull), (''t'', JBool True)])"
    by (simp add: number_reparsable_examples plain_def)
  show ?thesis by (rule conjI [OF r round_trip [OF r]])
qed

end
